theory Spec2Isabelle
  imports Main "HOL-Library.Multiset_Order"
begin

section \<open>Strings\<close>

text \<open>
  The strings of web\_scraper.py are modelled as HOL strings, a character being a code point
  below 256; the examples are ASCII. The string methods the module uses are written out
  below: \<^verbatim>\<open>s.lower()\<close>, \<^verbatim>\<open>s.strip()\<close>, \<^verbatim>\<open>s.startswith(p)\<close>, \<^verbatim>\<open>sub in s\<close>, \<^verbatim>\<open>s.split(c)\<close> and
  \<^verbatim>\<open>str(n)\<close>. On this range \<^verbatim>\<open>str.lower\<close> maps a character to one character: the letters A to
  Z and the capital letters of the Latin-1 block (0xC0 to 0xDE, the multiplication sign 0xD7
  apart) to the character 0x20 above them, every other character to itself.
\<close>

definition lower_char :: "char \<Rightarrow> char" where
  "lower_char c =
     (case map_of
             (zip (''ABCDEFGHIJKLMNOPQRSTUVWXYZ'' @
                   [CHR 0xC0, CHR 0xC1, CHR 0xC2, CHR 0xC3, CHR 0xC4, CHR 0xC5, CHR 0xC6, CHR 0xC7,
                    CHR 0xC8, CHR 0xC9, CHR 0xCA, CHR 0xCB, CHR 0xCC, CHR 0xCD, CHR 0xCE, CHR 0xCF,
                    CHR 0xD0, CHR 0xD1, CHR 0xD2, CHR 0xD3, CHR 0xD4, CHR 0xD5, CHR 0xD6,
                    CHR 0xD8, CHR 0xD9, CHR 0xDA, CHR 0xDB, CHR 0xDC, CHR 0xDD, CHR 0xDE])
                  (''abcdefghijklmnopqrstuvwxyz'' @
                   [CHR 0xE0, CHR 0xE1, CHR 0xE2, CHR 0xE3, CHR 0xE4, CHR 0xE5, CHR 0xE6, CHR 0xE7,
                    CHR 0xE8, CHR 0xE9, CHR 0xEA, CHR 0xEB, CHR 0xEC, CHR 0xED, CHR 0xEE, CHR 0xEF,
                    CHR 0xF0, CHR 0xF1, CHR 0xF2, CHR 0xF3, CHR 0xF4, CHR 0xF5, CHR 0xF6,
                    CHR 0xF8, CHR 0xF9, CHR 0xFA, CHR 0xFB, CHR 0xFC, CHR 0xFD, CHR 0xFE])) c of
        Some l \<Rightarrow> l
      | None \<Rightarrow> c)"

definition lower :: "string \<Rightarrow> string" where
  "lower s = map lower_char s"

text \<open>The characters below 256 for which \<^verbatim>\<open>str.isspace\<close> holds, the ones \<^verbatim>\<open>str.strip\<close>
  removes: tab, line feed, vertical tab, form feed, carriage return, the four separators
  0x1C..0x1F, the space, the next-line control 0x85 and the no-break space 0xA0.\<close>

definition isspace :: "char \<Rightarrow> bool" where
  "isspace c = (c \<in> set [CHR 0x09, CHR 0x0A, CHR 0x0B, CHR 0x0C, CHR 0x0D,
                           CHR 0x1C, CHR 0x1D, CHR 0x1E, CHR 0x1F, CHR 0x20,
                           CHR 0x85, CHR 0xA0])"

definition strip :: "string \<Rightarrow> string" where
  "strip s = rev (dropWhile isspace (rev (dropWhile isspace s)))"

text \<open>\<^verbatim>\<open>s.startswith(p)\<close> and \<^verbatim>\<open>sub in s\<close> (\<open>contains sub s\<close>) compare element by element; they
  are used on both kinds of strings of this theory.\<close>

fun startswith :: "'a list \<Rightarrow> 'a list \<Rightarrow> bool" where
  "startswith s [] = True"
| "startswith [] (p # ps) = False"
| "startswith (x # xs) (p # ps) = (x = p \<and> startswith xs ps)"

fun contains :: "'a list \<Rightarrow> 'a list \<Rightarrow> bool" where
  "contains sub [] = (sub = [])"
| "contains sub (x # xs) = (startswith (x # xs) sub \<or> contains sub xs)"

text \<open>\<open>split_char c s\<close> is \<^verbatim>\<open>s.split(c)\<close> for a one-character separator: empty fields
  are kept, and the empty string splits into one empty field.\<close>

fun split_char :: "char \<Rightarrow> string \<Rightarrow> string list" where
  "split_char c [] = [[]]"
| "split_char c (x # xs) =
     (if x = c then [] # split_char c xs
      else (case split_char c xs of
              [] \<Rightarrow> [[x]]
            | w # ws \<Rightarrow> (x # w) # ws))"

text \<open>
  The strings of pdf\_crawler.py are URLs and paths that come from the pages crawled: they are
  modelled as lists of Unicode code points, since the pattern of the crawler tells decimal
  digits of every script from other characters. \<open>ustr\<close> reads a literal of this theory as such
  a string.
\<close>

type_synonym codepoint = nat

type_synonym ustring = "codepoint list"

definition ustr :: "string \<Rightarrow> ustring" where
  "ustr s = map of_char s"

section \<open>Parsed documents\<close>

text \<open>
  \<^verbatim>\<open>BeautifulSoup(html, "html.parser")\<close> is the library's parser; the model takes its result, the
  document tree. A node is a string of the document (a \<^verbatim>\<open>NavigableString\<close>) or a tag with its
  name, the tokens of its \<^verbatim>\<open>class\<close> attribute (which the library keeps as a list), its
  \<^verbatim>\<open>href\<close> attribute when it has one, and its children. These are the only attributes the
  code reads. Comments and other strings that \<^verbatim>\<open>get_text\<close> and \<^verbatim>\<open>stripped_strings\<close> leave
  out are not nodes of the model. The type of the characters is a parameter: \<open>char node\<close> for
  web\_scraper.py, \<open>codepoint node\<close> for pdf\_crawler.py.
\<close>

datatype 'c node =
    Text "'c list"
  | Tag "'c list" "'c list list" "'c list option" "'c node list"

text \<open>The strings below a node, in document order.\<close>

fun strings :: "char node \<Rightarrow> string list" where
  "strings (Text s) = [s]"
| "strings (Tag nm cls hr kids) = concat (map strings kids)"

text \<open>The tags at and below a node, in document order (a tag comes before its children), and
  the tags of a document.\<close>

fun tags :: "'c node \<Rightarrow> 'c node list" where
  "tags (Text s) = []"
| "tags (Tag nm cls hr kids) = Tag nm cls hr kids # concat (map tags kids)"

definition descendants :: "'c node list \<Rightarrow> 'c node list" where
  "descendants soup = concat (map tags soup)"

fun tag_name :: "char node \<Rightarrow> string" where
  "tag_name (Text s) = []"
| "tag_name (Tag nm cls hr kids) = nm"

fun tag_classes :: "char node \<Rightarrow> string list" where
  "tag_classes (Text s) = []"
| "tag_classes (Tag nm cls hr kids) = cls"

fun tag_href :: "char node \<Rightarrow> string option" where
  "tag_href (Text s) = None"
| "tag_href (Tag nm cls hr kids) = hr"

text \<open>\<^verbatim>\<open>tag.get_text()\<close>: all strings below the tag, joined with no separator.\<close>

definition get_text :: "char node \<Rightarrow> string" where
  "get_text t = concat (strings t)"

text \<open>\<^verbatim>\<open>soup.stripped_strings\<close>: every string of the document stripped, the ones
  that are empty after stripping left out.\<close>

definition stripped_strings :: "char node list \<Rightarrow> string list" where
  "stripped_strings soup = filter (\<lambda>s. s \<noteq> []) (map strip (concat (map strings soup)))"

text \<open>\<^verbatim>\<open>tag.get_text(strip=True)\<close>: the stripped strings below the tag, joined.\<close>

definition get_text_strip :: "char node \<Rightarrow> string" where
  "get_text_strip t = concat (stripped_strings [t])"

section \<open>The label scanner (web\_scraper.py, \_find\_label\_value)\<close>

text \<open>
  The inner \<^verbatim>\<open>while j < n and stripped[j].strip() == ":"\<close> loop and the return after it, on the
  tokens from index \<open>i + 1\<close> on.
\<close>

fun skip_colons :: "string list \<Rightarrow> string option" where
  "skip_colons [] = None"
| "skip_colons (t # ts) = (if strip t = '':'' then skip_colons ts else Some (strip t))"

text \<open>The \<^verbatim>\<open>for i, s in enumerate(stripped)\<close> loop over the token list.\<close>

fun find_label_value :: "string list \<Rightarrow> string \<Rightarrow> string option" where
  "find_label_value [] label_base = None"
| "find_label_value (s # rest) label_base =
     (let lb_lower = lower label_base;
          sl = strip s;
          slower = lower sl
      in if slower = lb_lower then skip_colons rest
         else if startswith slower (lb_lower @ '':'') then
           (let after = strip (drop (length label_base + 1) sl)
            in if after \<noteq> [] \<and> after \<noteq> '':'' then Some after
               else skip_colons rest)
         else find_label_value rest label_base)"

text \<open>\<^verbatim>\<open>_find_label_value(soup, label_base)\<close>, with
  \<^verbatim>\<open>stripped = list(soup.stripped_strings)\<close>.\<close>

definition find_label_value_soup :: "char node list \<Rightarrow> string \<Rightarrow> string option" where
  "find_label_value_soup soup label_base = find_label_value (stripped_strings soup) label_base"

text \<open>A token is a hit for the label when one of the two branches of the loop takes it.\<close>

definition label_hit :: "string \<Rightarrow> string \<Rightarrow> bool" where
  "label_hit label_base s =
     (lower (strip s) = lower label_base \<or>
      startswith (lower (strip s)) (lower label_base @ '':''))"

section \<open>The junk-page pattern (pdf\_crawler.py, the regular expression of crawl\_for\_pdfs)\<close>

text \<open>
  Regular expressions with a character class (a predicate on characters) as the atom, and a
  matcher by derivatives: \<open>matches r s\<close> holds when the whole of \<open>s\<close> is a word of \<open>r\<close>.
  \<open>Lit\<close>, \<open>Str\<close>, \<open>Plus\<close> and \<open>Opt\<close> are a literal character, a literal string, \<^verbatim>\<open>r+\<close> and
  \<^verbatim>\<open>r?\<close>.
\<close>

datatype 'a regex =
    Zero
  | One
  | Cls "'a \<Rightarrow> bool"
  | Alt "'a regex" "'a regex"
  | Seq "'a regex" "'a regex"
  | Star "'a regex"

definition Lit :: "'a \<Rightarrow> 'a regex" where
  "Lit c = Cls (\<lambda>x. x = c)"

definition Str :: "'a list \<Rightarrow> 'a regex" where
  "Str s = foldr (\<lambda>c r. Seq (Lit c) r) s One"

definition Plus :: "'a regex \<Rightarrow> 'a regex" where
  "Plus r = Seq r (Star r)"

definition Opt :: "'a regex \<Rightarrow> 'a regex" where
  "Opt r = Alt r One"

fun nullable :: "'a regex \<Rightarrow> bool" where
  "nullable Zero = False"
| "nullable One = True"
| "nullable (Cls P) = False"
| "nullable (Alt r s) = (nullable r \<or> nullable s)"
| "nullable (Seq r s) = (nullable r \<and> nullable s)"
| "nullable (Star r) = True"

fun deriv :: "'a \<Rightarrow> 'a regex \<Rightarrow> 'a regex" where
  "deriv c Zero = Zero"
| "deriv c One = Zero"
| "deriv c (Cls P) = (if P c then One else Zero)"
| "deriv c (Alt r s) = Alt (deriv c r) (deriv c s)"
| "deriv c (Seq r s) =
     (if nullable r then Alt (Seq (deriv c r) s) (deriv c s) else Seq (deriv c r) s)"
| "deriv c (Star r) = Seq (deriv c r) (Star r)"

fun matches :: "'a regex \<Rightarrow> 'a list \<Rightarrow> bool" where
  "matches r [] = nullable r"
| "matches r (c # cs) = matches (deriv c r) cs"

text \<open>
  \<^verbatim>\<open>re.match('^' + r + '$', s)\<close>: the pattern is anchored at both ends, and \<^verbatim>\<open>$\<close> (without
  the MULTILINE flag) matches at the end of the string and also just before a line feed that
  ends the string.
\<close>

definition re_match_to_end :: "codepoint regex \<Rightarrow> ustring \<Rightarrow> bool" where
  "re_match_to_end r s =
     (matches r s \<or> (s \<noteq> [] \<and> last s = 0x0A \<and> matches r (butlast s)))"

text \<open>
  The pattern \<^verbatim>\<open>^/\d+(\.[\da-f]+)?\.html$\<close>. It is a pattern on \<^verbatim>\<open>str\<close>, so \<^verbatim>\<open>\d\<close> is every
  character of the Unicode category of decimal digits, in any script. That table belongs to
  the interpreter and is a parameter here, \<open>isdecimal\<close>; all that is known of it is that below
  128 it holds of the ten ASCII digits only (\<open>unicode_table\<close>). The letters of the class
  \<^verbatim>\<open>[\da-f]\<close> are the six lower-case letters.
\<close>

definition ascii_digit :: "codepoint \<Rightarrow> bool" where
  "ascii_digit c \<longleftrightarrow> c \<in> set (ustr ''0123456789'')"

definition lower_a_to_f :: "codepoint \<Rightarrow> bool" where
  "lower_a_to_f c \<longleftrightarrow> c \<in> set (ustr ''abcdef'')"

definition junk_pattern :: "(codepoint \<Rightarrow> bool) \<Rightarrow> codepoint regex" where
  "junk_pattern isdecimal =
     Seq (Lit (of_char CHR ''/''))
       (Seq (Plus (Cls isdecimal))
         (Seq (Opt (Seq (Lit (of_char CHR ''.''))
                        (Plus (Cls (\<lambda>c. isdecimal c \<or> lower_a_to_f c)))))
              (Str (ustr ''.html''))))"

definition is_junk_page :: "(codepoint \<Rightarrow> bool) \<Rightarrow> ustring \<Rightarrow> bool" where
  "is_junk_page isdecimal path = re_match_to_end (junk_pattern isdecimal) path"

definition unicode_table :: "(codepoint \<Rightarrow> bool) \<Rightarrow> bool" where
  "unicode_table isdecimal \<longleftrightarrow> (\<forall>c < 128. isdecimal c = ascii_digit c)"

text \<open>
  The shape the specification describes, in its words: a single path segment consisting of
  digits, optionally followed by a dot and a hexadecimal suffix, ending in \<open>.html\<close>. The digits
  are the ten decimal digits and a hexadecimal suffix is made of hexadecimal digits, the
  letters in either case.
\<close>

definition spec_hexadecimal :: "codepoint \<Rightarrow> bool" where
  "spec_hexadecimal c \<longleftrightarrow> c \<in> set (ustr ''0123456789abcdefABCDEF'')"

definition spec_junk_shape :: "ustring \<Rightarrow> bool" where
  "spec_junk_shape p =
     (\<exists>ds. ds \<noteq> [] \<and> (\<forall>c \<in> set ds. ascii_digit c) \<and>
        (p = ustr ''/'' @ ds @ ustr ''.html'' \<or>
         (\<exists>hs. hs \<noteq> [] \<and> (\<forall>c \<in> set hs. spec_hexadecimal c) \<and>
               p = ustr ''/'' @ ds @ ustr ''.'' @ hs @ ustr ''.html'')))"

text \<open>
  The shape the pattern matches: the digits are those of the table, and the suffix is made of
  digits of the table and of the lower-case letters a to f.
\<close>

definition junk_shape :: "(codepoint \<Rightarrow> bool) \<Rightarrow> ustring \<Rightarrow> bool" where
  "junk_shape isdecimal p =
     (\<exists>ds. ds \<noteq> [] \<and> (\<forall>c \<in> set ds. isdecimal c) \<and>
        (p = ustr ''/'' @ ds @ ustr ''.html'' \<or>
         (\<exists>hs. hs \<noteq> [] \<and> (\<forall>c \<in> set hs. isdecimal c \<or> lower_a_to_f c) \<and>
               p = ustr ''/'' @ ds @ ustr ''.'' @ hs @ ustr ''.html'')))"

text \<open>A table for the examples: the ASCII digits and the Arabic-Indic digits U+0660 to U+0669,
  which are decimal digits of Unicode.\<close>

definition example_isdecimal :: "codepoint \<Rightarrow> bool" where
  "example_isdecimal c \<longleftrightarrow> (48 \<le> c \<and> c \<le> 57) \<or> (0x660 \<le> c \<and> c \<le> 0x669)"

text \<open>The words of a regular expression, to state what the matcher decides.\<close>

inductive_set star :: "'a list set \<Rightarrow> 'a list set" for A :: "'a list set" where
  star_empty: "[] \<in> star A"
| star_more: "u \<in> A \<Longrightarrow> v \<in> star A \<Longrightarrow> u @ v \<in> star A"

fun lang :: "'a regex \<Rightarrow> 'a list set" where
  "lang Zero = {}"
| "lang One = {[]}"
| "lang (Cls P) = {[c] | c. P c}"
| "lang (Alt r s) = lang r \<union> lang s"
| "lang (Seq r s) = {u @ v | u v. u \<in> lang r \<and> v \<in> lang s}"
| "lang (Star r) = star (lang r)"

section \<open>The crawler (pdf\_crawler.py)\<close>

text \<open>
  What \<^verbatim>\<open>requests.get\<close> returns: the final URL after redirects (\<^verbatim>\<open>response.url\<close>), the
  status code, the \<^verbatim>\<open>Content-Type\<close> header (empty when absent) and the content decoded by
  \<^verbatim>\<open>response.content.decode(response.encoding or 'utf-8', errors="replace")\<close>, which is \<open>None\<close>
  when the call raises (the encoding the server names is unknown to the interpreter).
\<close>

datatype response = Response ustring nat ustring "ustring option"

fun resp_url :: "response \<Rightarrow> ustring" where
  "resp_url (Response u st ct body) = u"

fun status_code :: "response \<Rightarrow> nat" where
  "status_code (Response u st ct body) = st"

fun content_type :: "response \<Rightarrow> ustring" where
  "content_type (Response u st ct body) = ct"

fun html_content :: "response \<Rightarrow> ustring option" where
  "html_content (Response u st ct body) = body"

text \<open>\<^verbatim>\<open>requests.get\<close> raises (a network error, a timeout) or returns a response.\<close>

datatype requests_result = RequestException | Got response

text \<open>
  The world outside the crawler: the network and the library functions. \<open>requests_get\<close> is given
  the URLs requested so far, so that the same URL may be answered differently at different
  times; the user-agent header chosen at random is part of what it may depend on.
  \<open>parse_html\<close> is \<^verbatim>\<open>BeautifulSoup(html, "html.parser")\<close>. \<open>urljoin\<close> is \<^verbatim>\<open>urllib.parse.urljoin\<close>
  and \<open>urlparse\<close> gives the two fields read of \<^verbatim>\<open>urllib.parse.urlparse\<close>, the host (\<^verbatim>\<open>netloc\<close>)
  and the path; both raise \<^verbatim>\<open>ValueError\<close> on a malformed URL (\<^verbatim>\<open>urljoin("http://a", "//[")\<close>
  does), which is the result \<open>None\<close>. \<open>str_lower\<close> is \<^verbatim>\<open>str.lower\<close> on Unicode strings and
  \<open>isdecimal\<close> is the table of decimal digits that the pattern's \<^verbatim>\<open>\d\<close> consults.
\<close>

record world =
  requests_get :: "ustring list \<Rightarrow> ustring \<Rightarrow> requests_result"
  parse_html :: "ustring \<Rightarrow> codepoint node list"
  urljoin :: "ustring \<Rightarrow> ustring \<Rightarrow> ustring option"
  urlparse :: "ustring \<Rightarrow> (ustring \<times> ustring) option"
  str_lower :: "ustring \<Rightarrow> ustring"
  isdecimal :: "codepoint \<Rightarrow> bool"

text \<open>\<^verbatim>\<open>response.raise_for_status()\<close> raises for the client and server error codes.\<close>

definition raise_for_status :: "response \<Rightarrow> bool" where
  "raise_for_status r = (400 \<le> status_code r \<and> status_code r < 600)"

text \<open>
  The state of the loop: \<open>visited\<close>, \<open>to_visit\<close> and \<open>pdf_links\<close> as in the source, and a log of
  what the run did, in order: \<open>Fetch u\<close> for each call of \<^verbatim>\<open>requests.get\<close> and \<open>Enqueue u d\<close> for
  each \<^verbatim>\<open>to_visit.append\<close> (the seed, which is on the frontier before the loop starts, has
  no \<open>Enqueue\<close> entry). The log is only written, never read, except that the URLs fetched so
  far are what \<open>requests_get\<close> may depend on. \<open>raised\<close> is set when a statement outside the
  \<^verbatim>\<open>try\<close> block raises: the exception leaves \<^verbatim>\<open>crawl_for_pdfs\<close>, so nothing more is done, and
  the other fields are then what the function had built when it was left.
\<close>

datatype event = Fetch ustring | Enqueue ustring int

record crawl_state =
  visited :: "ustring set"
  to_visit :: "(ustring \<times> int) list"
  pdf_links :: "(ustring \<times> codepoint node) list"
  events :: "event list"
  raised :: bool

fun fetched :: "event list \<Rightarrow> ustring list" where
  "fetched [] = []"
| "fetched (Fetch u # es) = u # fetched es"
| "fetched (Enqueue u d # es) = fetched es"

text \<open>\<^verbatim>\<open>soup.find_all("a", href=True)\<close>: the \<open>a\<close> tags that have an \<open>href\<close>, in document order,
  each with its \<open>href\<close>.\<close>

fun anchor_href :: "codepoint node \<Rightarrow> (ustring \<times> codepoint node) list" where
  "anchor_href (Tag nm cls (Some h) kids) =
     (if nm = ustr ''a'' then [(h, Tag nm cls (Some h) kids)] else [])"
| "anchor_href t = []"

definition find_all_a_href :: "codepoint node list \<Rightarrow> (ustring \<times> codepoint node) list" where
  "find_all_a_href soup = concat (map anchor_href (descendants soup))"

text \<open>
  The body of \<^verbatim>\<open>for link in soup.find_all("a", href=True)\<close> for one link. The calls of
  \<^verbatim>\<open>urljoin\<close> and \<^verbatim>\<open>urlparse\<close> are not inside a \<^verbatim>\<open>try\<close>: when one of them raises, the
  crawl is over, and the links that follow are not looked at.
\<close>

definition process_link ::
  "world \<Rightarrow> ustring \<Rightarrow> int \<Rightarrow> int \<Rightarrow> ustring \<Rightarrow> crawl_state \<Rightarrow> ustring \<times> codepoint node
     \<Rightarrow> crawl_state" where
  "process_link w base_url max_depth depth final_url s hl =
     (if raised s then s
      else
        (let href = fst hl; link = snd hl
         in case urljoin w final_url href of
              None \<Rightarrow> s\<lparr>raised := True\<rparr>
            | Some full_url \<Rightarrow>
                (case urlparse w full_url of
                   None \<Rightarrow> s\<lparr>raised := True\<rparr>
                 | Some (netloc, path) \<Rightarrow>
                     (case urlparse w base_url of
                        None \<Rightarrow> s\<lparr>raised := True\<rparr>
                      | Some (base_netloc, base_path) \<Rightarrow>
                          if netloc \<noteq> base_netloc then s
                          else if is_junk_page (isdecimal w) path then s
                          else if contains (ustr ''.pdf'') (str_lower w full_url) then
                            s\<lparr>pdf_links := pdf_links s @ [(full_url, link)]\<rparr>
                          else if depth < max_depth \<and> full_url \<notin> visited s then
                            s\<lparr>to_visit := to_visit s @ [(full_url, depth + 1)],
                              events := events s @ [Enqueue full_url (depth + 1)]\<rparr>
                          else s))))"

definition process_links ::
  "world \<Rightarrow> ustring \<Rightarrow> int \<Rightarrow> int \<Rightarrow> ustring \<Rightarrow> crawl_state \<Rightarrow> (ustring \<times> codepoint node) list
     \<Rightarrow> crawl_state" where
  "process_links w base_url max_depth depth final_url s links =
     foldl (process_link w base_url max_depth depth final_url) s links"

text \<open>
  The \<^verbatim>\<open>try\<close> block: \<open>None\<close> where the source says \<^verbatim>\<open>continue\<close> (the request raised,
  \<^verbatim>\<open>raise_for_status\<close> raised, or the content type is not HTML).
\<close>

definition fetch_page :: "world \<Rightarrow> ustring list \<Rightarrow> ustring \<Rightarrow> response option" where
  "fetch_page w history current_url =
     (case requests_get w history current_url of
        RequestException \<Rightarrow> None
      | Got response \<Rightarrow>
          if raise_for_status response then None
          else if \<not> contains (ustr ''text/html'') (content_type response) then None
          else Some response)"

text \<open>One iteration of \<^verbatim>\<open>while to_visit\<close>. The content is decoded after the \<^verbatim>\<open>try\<close> block.\<close>

definition crawl_iter :: "world \<Rightarrow> ustring \<Rightarrow> int \<Rightarrow> crawl_state \<Rightarrow> crawl_state" where
  "crawl_iter w base_url max_depth s =
     (case to_visit s of
        [] \<Rightarrow> s
      | (current_url, depth) # rest \<Rightarrow>
          (let s1 = s\<lparr>to_visit := rest\<rparr>
           in if current_url \<in> visited s1 then s1
              else
                (let s2 = s1\<lparr>visited := insert current_url (visited s1),
                             events := events s1 @ [Fetch current_url]\<rparr>
                 in case fetch_page w (fetched (events s1)) current_url of
                      None \<Rightarrow> s2
                    | Some response \<Rightarrow>
                        (case html_content response of
                           None \<Rightarrow> s2\<lparr>raised := True\<rparr>
                         | Some html \<Rightarrow>
                             process_links w base_url max_depth depth (resp_url response) s2
                               (find_all_a_href (parse_html w html))))))"

text \<open>
  A log is settled when no URL is fetched or enqueued after it was fetched.
\<close>

fun event_url :: "event \<Rightarrow> ustring" where
  "event_url (Fetch u) = u"
| "event_url (Enqueue u d) = u"

fun settled :: "event list \<Rightarrow> bool" where
  "settled [] = True"
| "settled (Fetch u # es) = (u \<notin> event_url ` set es \<and> settled es)"
| "settled (Enqueue u d # es) = settled es"

text \<open>The absolute URLs of the links on the seed page (empty when the seed page is not
  retrieved as HTML).\<close>

definition seed_links :: "world \<Rightarrow> ustring \<Rightarrow> ustring set" where
  "seed_links w base_url =
     (case fetch_page w [] base_url of
        None \<Rightarrow> {}
      | Some r \<Rightarrow>
          (case html_content r of
             None \<Rightarrow> {}
           | Some html \<Rightarrow>
               set (List.map_filter (\<lambda>hl. urljoin w (resp_url r) (fst hl))
                      (find_all_a_href (parse_html w html)))))"

text \<open>
  What the loop body does with one link, as a value: it raises, it drops the link (another
  host, or a junk page), it records a document, or it has a page to enqueue when the depth
  and the visited set allow. The tests are those of \<open>process_link\<close>, in its order. The links
  of a page that the loop reaches are the ones before the first that raises; what one page
  adds to the documents and to the frontier are the documents and the pages among them, in
  document order.
\<close>

datatype link_class = Raises | OffDomain | Junk | Document ustring | Page ustring

definition classify :: "world \<Rightarrow> ustring \<Rightarrow> ustring \<Rightarrow> ustring \<Rightarrow> link_class" where
  "classify w base_url final_url href =
     (case urljoin w final_url href of
        None \<Rightarrow> Raises
      | Some full_url \<Rightarrow>
          (case urlparse w full_url of
             None \<Rightarrow> Raises
           | Some (netloc, path) \<Rightarrow>
               (case urlparse w base_url of
                  None \<Rightarrow> Raises
                | Some (base_netloc, base_path) \<Rightarrow>
                    if netloc \<noteq> base_netloc then OffDomain
                    else if is_junk_page (isdecimal w) path then Junk
                    else if contains (ustr ''.pdf'') (str_lower w full_url) then Document full_url
                    else Page full_url)))"

definition processed ::
  "world \<Rightarrow> ustring \<Rightarrow> ustring \<Rightarrow> (ustring \<times> codepoint node) list \<Rightarrow> (ustring \<times> codepoint node) list" where
  "processed w base_url final_url links =
     takeWhile (\<lambda>hl. classify w base_url final_url (fst hl) \<noteq> Raises) links"

definition new_documents ::
  "world \<Rightarrow> ustring \<Rightarrow> ustring \<Rightarrow> (ustring \<times> codepoint node) list
     \<Rightarrow> (ustring \<times> codepoint node) list" where
  "new_documents w base_url final_url links =
     concat (map (\<lambda>hl. case classify w base_url final_url (fst hl) of
                          Document u \<Rightarrow> [(u, snd hl)]
                        | _ \<Rightarrow> [])
               (processed w base_url final_url links))"

definition new_pages ::
  "world \<Rightarrow> ustring \<Rightarrow> int \<Rightarrow> int \<Rightarrow> ustring \<Rightarrow> ustring set \<Rightarrow> (ustring \<times> codepoint node) list
     \<Rightarrow> (ustring \<times> int) list" where
  "new_pages w base_url max_depth depth final_url vis links =
     concat (map (\<lambda>hl. case classify w base_url final_url (fst hl) of
                          Page u \<Rightarrow> if depth < max_depth \<and> u \<notin> vis then [(u, depth + 1)] else []
                        | _ \<Rightarrow> [])
               (processed w base_url final_url links))"




text \<open>The distance of a frontier entry from the depth bound, for the termination of the loop.\<close>

definition weight :: "int \<Rightarrow> ustring \<times> int \<Rightarrow> nat" where
  "weight max_depth e = nat (max_depth - snd e)"

text \<open>
  The loop \<^verbatim>\<open>while to_visit\<close>, and the function up to the end of the loop (the downloads that
  follow write files and are not modelled). The loop ends when the frontier is empty or when
  an exception has left it. It terminates on every input: an iteration removes one entry and
  adds only entries that are strictly nearer to the depth bound.
\<close>

function crawl_loop :: "world \<Rightarrow> ustring \<Rightarrow> int \<Rightarrow> crawl_state \<Rightarrow> crawl_state" where
  "crawl_loop w base_url max_depth s =
     (if to_visit s = [] \<or> raised s then s
      else crawl_loop w base_url max_depth (crawl_iter w base_url max_depth s))"
  by pat_completeness auto

definition initial_state :: "ustring \<Rightarrow> crawl_state" where
  "initial_state base_url =
     \<lparr>visited = {}, to_visit = [(base_url, 0)], pdf_links = [], events = [], raised = False\<rparr>"

definition crawl_for_pdfs :: "world \<Rightarrow> ustring \<Rightarrow> int \<Rightarrow> crawl_state" where
  "crawl_for_pdfs w base_url max_depth =
     crawl_loop w base_url max_depth
       \<lparr>visited = {}, to_visit = [(base_url, 0)], pdf_links = [], events = [], raised = False\<rparr>"

section \<open>The listing paginator and extractor (web\_scraper.py)\<close>

text \<open>An entry of a listing page: the dictionary with the keys \<^verbatim>\<open>url\<close> and \<^verbatim>\<open>date\<close>.\<close>

record report_link =
  url :: string
  date :: string

text \<open>
  \<^verbatim>\<open>is_valid_listing_page(html)\<close>. The parser is a parameter; \<^verbatim>\<open>soup.find(predicate)\<close> is the first
  tag of the document, in document order, that satisfies the predicate.
\<close>

definition is_valid_listing_page :: "(string \<Rightarrow> char node list) \<Rightarrow> string \<Rightarrow> bool" where
  "is_valid_listing_page parse html =
     (let soup = parse html;
          header = find (\<lambda>tag. tag_name tag \<in> set [''h1'', ''h2'', ''h3'']
                              \<and> contains ''Publikationer'' (get_text tag))
                     (descendants soup)
      in header \<noteq> None)"

text \<open>
  \<^verbatim>\<open>extract_report_links(listing_html)\<close>. A tag object is identified by its position in the
  document-order list of tags. \<^verbatim>\<open>soup.select("time.lp-filterable-list-item-date")\<close> gives the
  positions of the \<open>time\<close> tags with that class; \<^verbatim>\<open>find_previous\<close> searches the tags before a
  position, nearest first (the ancestors of a tag come before it), for an \<open>a\<close> tag whose
  \<open>href\<close> starts with \<open>/publikationer/\<close>, which is what the pattern \<^verbatim>\<open>^/publikationer/\<close> asks.
  \<open>extract_step\<close> is the body of the loop over the time tags.
\<close>

definition select_time_tags :: "char node list \<Rightarrow> nat list" where
  "select_time_tags elems =
     filter (\<lambda>i. tag_name (elems ! i) = ''time''
                \<and> ''lp-filterable-list-item-date'' \<in> set (tag_classes (elems ! i)))
       [0..<length elems]"

definition find_previous_link :: "char node list \<Rightarrow> nat \<Rightarrow> char node option" where
  "find_previous_link elems i =
     find (\<lambda>t. tag_name t = ''a''
              \<and> (case tag_href t of None \<Rightarrow> False | Some h \<Rightarrow> startswith h ''/publikationer/''))
       (rev (take i elems))"

definition extract_step :: "char node list \<Rightarrow> report_link list \<Rightarrow> nat \<Rightarrow> report_link list" where
  "extract_step elems reports i =
     (let time_tag = elems ! i;
          date_str = get_text_strip time_tag
      in case find_previous_link elems i of
           None \<Rightarrow> reports
         | Some link_tag \<Rightarrow>
             (case tag_href link_tag of
                None \<Rightarrow> reports
              | Some href \<Rightarrow>
                  if href = [] then reports
                  else
                    (let parts = split_char CHR ''/'' href
                     in if length parts > 2 then
                          (let category = lower (parts ! 2)
                           in if category \<in> set [''rapport'', ''pm'', ''statistik'', ''wp''] then
                                (let full_url = (if startswith href ''http'' then href
                                                 else ''https://www.tillvaxtanalys.se'' @ href)
                                 in if \<not> list_ex (\<lambda>report. url report = full_url) reports then
                                      reports @ [\<lparr>url = full_url, date = date_str\<rparr>]
                                    else reports)
                              else reports)
                        else reports)))"

definition extract_report_links :: "(string \<Rightarrow> char node list) \<Rightarrow> string \<Rightarrow> report_link list" where
  "extract_report_links parse listing_html =
     (let soup = parse listing_html;
          elems = descendants soup;
          time_tags = select_time_tags elems
      in foldl (extract_step elems) [] time_tags)"

text \<open>
  The page renderer: \<^verbatim>\<open>get_html(page, url)\<close> returns the content of the loaded page or raises
  (it re-raises whatever the navigation raised). Within one run every page URL is loaded once,
  so the renderer is a function of the URL.
\<close>

datatype exn = PlaywrightError

text \<open>\<^verbatim>\<open>str(n)\<close> for a natural number.\<close>

fun digit_char :: "nat \<Rightarrow> char" where
  "digit_char n = ''0123456789'' ! n"

fun str_nat :: "nat \<Rightarrow> string" where
  "str_nat n = (if n < 10 then [digit_char n] else str_nat (n div 10) @ [digit_char (n mod 10)])"

declare str_nat.simps [simp del]

text \<open>The URL of a listing page: the listing URL itself for page 1, with the page parameter
  appended for the later pages.\<close>

definition paginated_url :: "string \<Rightarrow> nat \<Rightarrow> string" where
  "paginated_url listing_url current_page =
     (if current_page = 1 then listing_url
      else listing_url @ ''&svAjaxReqParam=ajax&page12_706c70df1932999ea346c0a=''
             @ str_nat current_page)"

text \<open>
  The loop \<^verbatim>\<open>while True\<close> of \<^verbatim>\<open>fetch_listing_pages\<close>. It may not end (a site that answers
  every page index with a valid page that has entries), so it is a partial function:
  \<open>None\<close> is a run that never returns, \<open>Some (Inl e)\<close> a run that ends with the exception \<open>e\<close>
  (the \<^verbatim>\<open>try\<close> has a \<^verbatim>\<open>finally\<close> that closes the page and the context, and no handler),
  \<open>Some (Inr htmls)\<close> a run that returns the list of pages.
\<close>

partial_function (option) listing_loop ::
  "(string \<Rightarrow> char node list) \<Rightarrow> (string \<Rightarrow> exn + string) \<Rightarrow> string \<Rightarrow> nat \<Rightarrow> string list
     \<Rightarrow> (exn + string list) option" where
  "listing_loop parse get_html listing_url current_page all_listing_htmls =
     (case get_html (paginated_url listing_url current_page) of
        Inl e \<Rightarrow> Some (Inl e)
      | Inr html \<Rightarrow>
          if \<not> is_valid_listing_page parse html then Some (Inr all_listing_htmls)
          else if html = [] \<or> length html < 1000 then Some (Inr all_listing_htmls)
          else if length (extract_report_links parse html) < 1 then
            Some (Inr (all_listing_htmls @ [html]))
          else listing_loop parse get_html listing_url (current_page + 1)
                 (all_listing_htmls @ [html]))"

definition fetch_listing_pages ::
  "(string \<Rightarrow> char node list) \<Rightarrow> (string \<Rightarrow> exn + string) \<Rightarrow> string \<Rightarrow> (exn + string list) option" where
  "fetch_listing_pages parse get_html listing_url = listing_loop parse get_html listing_url 1 []"

text \<open>
  The start of \<^verbatim>\<open>main\<close>: \<open>collect_entries\<close> is the loop that extends \<^verbatim>\<open>report_entries\<close> with the
  entries of each page, \<open>session_entries\<close> the entries of one pagination session.
\<close>

definition collect_entries :: "(string \<Rightarrow> char node list) \<Rightarrow> string list \<Rightarrow> report_link list" where
  "collect_entries parse listing_htmls =
     foldl (\<lambda>report_entries html. report_entries @ extract_report_links parse html) [] listing_htmls"

definition session_entries ::
  "(string \<Rightarrow> char node list) \<Rightarrow> (string \<Rightarrow> exn + string) \<Rightarrow> string \<Rightarrow> (exn + report_link list) option" where
  "session_entries parse get_html listing_url =
     (case fetch_listing_pages parse get_html listing_url of
        None \<Rightarrow> None
      | Some (Inl e) \<Rightarrow> Some (Inl e)
      | Some (Inr listing_htmls) \<Rightarrow> Some (Inr (collect_entries parse listing_htmls)))"

text \<open>
  The invariants of the crawler's loop: the visited set is the set of URLs fetched, each
  fetched once, with a settled log; every document recorded is a document URL and every URL
  enqueued is a page URL; the documents of every page that was retrieved and decoded are
  recorded; and every URL enqueued is visited or still on the frontier.
\<close>

definition crawl_inv :: "crawl_state \<Rightarrow> bool" where
  "crawl_inv s \<longleftrightarrow>
     visited s = set (fetched (events s)) \<and> distinct (fetched (events s)) \<and> settled (events s)"




section \<open>Example webs\<close>

text \<open>
  Small webs on which the crawler is run, with a URL parser and a resolver that are enough
  for their URLs: a cycle between two pages, the second linked twice from the first; a chain
  of three pages; and a site of two pages, the first with links to a junk page with a
  document marker in its query, to a junk page whose digits are Arabic-Indic, to a document
  with an upper-case marker before a query, to a document on another host and to the second
  page, which links one more document.
\<close>

definition ascii_lower :: "ustring \<Rightarrow> ustring" where
  "ascii_lower s = map (\<lambda>c. if 65 \<le> c \<and> c \<le> 90 then c + 32 else c) s"

definition example_urlparse :: "ustring \<Rightarrow> (ustring \<times> ustring) option" where
  "example_urlparse u =
     Some (takeWhile (\<lambda>c. c \<noteq> of_char CHR ''/'') (drop 7 u),
           takeWhile (\<lambda>c. c \<noteq> of_char CHR ''?'')
             (dropWhile (\<lambda>c. c \<noteq> of_char CHR ''/'') (drop 7 u)))"

definition example_urljoin :: "ustring \<Rightarrow> ustring \<Rightarrow> ustring option" where
  "example_urljoin b h = Some (if startswith h (ustr ''http'') then h else b @ h)"

definition html_page :: "ustring \<Rightarrow> ustring \<Rightarrow> requests_result" where
  "html_page u body = Got (Response u 200 (ustr ''text/html; charset=utf-8'') (Some body))"

definition anchor :: "ustring \<Rightarrow> codepoint node" where
  "anchor href = Tag (ustr ''a'') [] (Some href) [Text (ustr ''link'')]"

definition cyclic_web :: world where
  "cyclic_web =
     \<lparr>requests_get = (\<lambda>history u.
          if u = ustr ''http://a/'' then html_page u (ustr ''A'')
          else if u = ustr ''http://a/x'' then html_page u (ustr ''X'')
          else RequestException),
       parse_html = (\<lambda>h.
          if h = ustr ''A'' then [anchor (ustr ''http://a/x''), anchor (ustr ''http://a/x'')]
          else [Tag (ustr ''p'') [] None [anchor (ustr ''http://a/'')]]),
       urljoin = example_urljoin,
       urlparse = example_urlparse,
       str_lower = ascii_lower,
       isdecimal = example_isdecimal\<rparr>"

definition chain_web :: world where
  "chain_web =
     \<lparr>requests_get = (\<lambda>history u.
          if u = ustr ''http://a/'' then html_page u (ustr ''A'')
          else if u = ustr ''http://a/x'' then html_page u (ustr ''X'')
          else if u = ustr ''http://a/y'' then html_page u (ustr ''Y'')
          else RequestException),
       parse_html = (\<lambda>h.
          if h = ustr ''A'' then [anchor (ustr ''http://a/x'')]
          else if h = ustr ''X'' then [anchor (ustr ''http://a/y'')]
          else [anchor (ustr ''http://a/'')]),
       urljoin = example_urljoin,
       urlparse = example_urlparse,
       str_lower = ascii_lower,
       isdecimal = example_isdecimal\<rparr>"





text \<open>
  A listing of three pages. Page A is valid and lists one report twice and a report of a
  category that is not allowed; page B is valid (the marker is split over the heading and a
  tag inside it) and lists the first report of page A again; page C has the marker only in a
  fourth-level heading, in a paragraph and in the attributes of its first-level heading. A
  second renderer fails to load the second page.
\<close>

definition page_html :: "char \<Rightarrow> string" where
  "page_html c = c # replicate 1000 CHR ''x''"

definition listing_item :: "string \<Rightarrow> string \<Rightarrow> char node" where
  "listing_item href day =
     Tag ''li'' [] None
       [Tag ''a'' [] (Some href) [Text ''Rapport''],
        Tag ''time'' [''lp-filterable-list-item-date''] None [Text day]]"

definition example_parse :: "string \<Rightarrow> char node list" where
  "example_parse html =
     (if html = [] then []
      else if hd html = CHR ''A'' then
        [Tag ''h1'' [] None [Text ''Publikationer''],
         Tag ''ul'' [] None
           [listing_item ''/publikationer/rapport/r1.html'' '' 26 februari 2025 '',
            listing_item ''/publikationer/PM/p2.html'' ''3 mars 2025'',
            listing_item ''/publikationer/rapport/r1.html'' ''26 februari 2025'',
            listing_item ''/publikationer/ovrigt/o4.html'' ''4 mars 2025'']]
      else if hd html = CHR ''B'' then
        [Tag ''h2'' [] None [Text ''Alla '', Tag ''span'' [] None [Text ''Publikationer'']],
         Tag ''ul'' [] None
           [listing_item ''/publikationer/rapport/r1.html'' ''26 februari 2025'',
            listing_item ''/publikationer/wp/w3.html'' ''1 januari 2025'']]
      else
        [Tag ''h1'' [''Publikationer''] (Some ''/Publikationer'') [Text ''Rapporter''],
         Tag ''h4'' [] None [Text ''Publikationer''],
         Tag ''p'' [] None [Text ''Publikationer''],
         Tag ''ul'' [] None [listing_item ''/publikationer/rapport/r9.html'' ''9 maj 2025'']])"

definition example_get_html :: "string \<Rightarrow> exn + string" where
  "example_get_html u =
     (if u = ''L'' then Inr (page_html CHR ''A'')
      else if u = ''L&svAjaxReqParam=ajax&page12_706c70df1932999ea346c0a=2'' then
        Inr (page_html CHR ''B'')
      else if u = ''L&svAjaxReqParam=ajax&page12_706c70df1932999ea346c0a=3'' then
        Inr (page_html CHR ''C'')
      else Inl PlaywrightError)"

definition failing_get_html :: "string \<Rightarrow> exn + string" where
  "failing_get_html u = (if u = ''L'' then Inr (page_html CHR ''A'') else Inl PlaywrightError)"

section \<open>Properties of the label scanner\<close>

lemma strip_literal_examples:
  "strip ''Serienummer'' = ''Serienummer''"
  "strip '':'' = '':''"
  "strip ''Rapport 2024:17'' = ''Rapport 2024:17''"
  "strip ''Serienummer: Rapport 2024:17'' = ''Serienummer: Rapport 2024:17''"
  "strip '' Rapport 2024:17'' = ''Rapport 2024:17''"
  by (simp_all add: strip_def isspace_def)

lemma find_label_value_no_hit:
  "\<forall>p \<in> set pre. \<not> label_hit label_base p \<Longrightarrow>
   find_label_value (pre @ ts) label_base = find_label_value ts label_base"
  by (induction pre) (simp_all add: label_hit_def Let_def)

lemma skip_colons_append:
  "\<forall>c \<in> set colons. strip c = '':'' \<Longrightarrow> skip_colons (colons @ ts) = skip_colons ts"
  by (induction colons) simp_all

lemma find_label_value_exact:
  assumes "\<forall>p \<in> set pre. \<not> label_hit label_base p"
    and "lower (strip t) = lower label_base"
    and "\<forall>c \<in> set colons. strip c = '':''"
  shows "find_label_value (pre @ t # colons @ ts) label_base = skip_colons ts"
proof -
  have "find_label_value (pre @ t # colons @ ts) label_base
        = find_label_value (t # colons @ ts) label_base"
    using assms(1) by (rule find_label_value_no_hit)
  also have "\<dots> = skip_colons (colons @ ts)"
    using assms(2) by (simp add: Let_def)
  also have "\<dots> = skip_colons ts"
    using assms(3) by (rule skip_colons_append)
  finally show ?thesis .
qed

lemma skip_colons_value:
  "skip_colons ts = Some v \<Longrightarrow> v \<noteq> '':'' \<and> v \<in> strip ` set ts"
  by (induction ts) (auto split: if_splits)

lemma find_label_value_value:
  "find_label_value ts label_base = Some v \<Longrightarrow>
   v \<noteq> '':'' \<and> (v \<noteq> [] \<or> v \<in> strip ` set ts)"
proof (induction ts)
  case Nil
  then show ?case by simp
next
  case (Cons s rest)
  then show ?case
    by (auto simp: Let_def split: if_splits dest: skip_colons_value)
qed

lemma strip_idem: "strip (strip s) = strip s"
proof -
  define a where "a = dropWhile isspace s"
  define b where "b = rev (dropWhile isspace (rev a))"
  have a_head: "a = [] \<or> \<not> isspace (hd a)"
    unfolding a_def by (metis hd_dropWhile)
  have "rev (takeWhile isspace (rev a) @ dropWhile isspace (rev a)) = rev (rev a)"
    by (simp only: takeWhile_dropWhile_id)
  then have split: "a = b @ rev (takeWhile isspace (rev a))"
    by (simp only: rev_append rev_rev_ident b_def)
  have "b = [] \<or> \<not> isspace (hd b)"
  proof (cases "b = []")
    case True
    then show ?thesis by simp
  next
    case False
    then have "hd a = hd b" and "a \<noteq> []"
      using split by (metis hd_append2, metis append_is_Nil_conv)
    with a_head show ?thesis by simp
  qed
  then have "dropWhile isspace b = b"
    by (simp add: dropWhile_eq_self_iff)
  moreover have "rev (dropWhile isspace (rev b)) = b"
    by (simp add: b_def)
  ultimately show ?thesis
    by (simp add: strip_def a_def b_def)
qed

lemma stripped_strings_tokens:
  "t \<in> set (stripped_strings soup) \<Longrightarrow> t \<noteq> [] \<and> strip t = t"
  by (auto simp: stripped_strings_def strip_idem)

text \<open>
  Claim C2. On the tokens \<open>["Serienummer", ":", "Rapport 2024:17"]\<close> the scanner returns
  \<open>"Rapport 2024:17"\<close>; on the single token \<open>["Serienummer: Rapport 2024:17"]\<close> it returns
  \<open>"Rapport 2024:17"\<close>; on \<open>["Serienummer"]\<close> alone it returns nothing. In general, when the
  first token that is a hit for the label is equal to the label up to letter case, the tokens
  right after it that are a bare colon are skipped: the result is nothing when no token
  remains, and the next token (stripped) when that token is not a bare colon. On the stripped
  strings of a document, where no token is blank, the value returned is never blank and never
  a bare colon.
\<close>

theorem find_label_value_spec:
  "find_label_value [''Serienummer'', '':'', ''Rapport 2024:17''] ''Serienummer''
     = Some ''Rapport 2024:17''
   \<and> find_label_value [''Serienummer: Rapport 2024:17''] ''Serienummer''
     = Some ''Rapport 2024:17''
   \<and> find_label_value [''Serienummer''] ''Serienummer'' = None
   \<and> (\<forall>pre t colons label_base.
        (\<forall>p \<in> set pre. \<not> label_hit label_base p) \<and>
        lower (strip t) = lower label_base \<and>
        (\<forall>c \<in> set colons. strip c = '':'') \<longrightarrow>
          find_label_value (pre @ t # colons) label_base = None \<and>
          (\<forall>v rest. strip v \<noteq> '':'' \<longrightarrow>
             find_label_value (pre @ t # colons @ v # rest) label_base = Some (strip v)))
   \<and> (\<forall>soup label_base v.
        find_label_value_soup soup label_base = Some v \<longrightarrow> v \<noteq> [] \<and> v \<noteq> '':'')"
proof (intro conjI allI impI)
  show "find_label_value [''Serienummer'', '':'', ''Rapport 2024:17''] ''Serienummer''
          = Some ''Rapport 2024:17''"
    by (simp add: Let_def strip_literal_examples lower_def lower_char_def)
  show "find_label_value [''Serienummer: Rapport 2024:17''] ''Serienummer''
          = Some ''Rapport 2024:17''"
    by (simp add: Let_def strip_literal_examples lower_def lower_char_def)
  show "find_label_value [''Serienummer''] ''Serienummer'' = None"
    by (simp add: Let_def strip_literal_examples)
next
  fix pre t colons label_base
  assume h: "(\<forall>p \<in> set pre. \<not> label_hit label_base p) \<and>
             lower (strip t) = lower label_base \<and> (\<forall>c \<in> set colons. strip c = '':'')"
  then show "find_label_value (pre @ t # colons) label_base = None"
    using find_label_value_exact [of pre label_base t colons "[]"] by simp
  fix v rest
  assume "strip v \<noteq> '':''"
  with h show "find_label_value (pre @ t # colons @ v # rest) label_base = Some (strip v)"
    using find_label_value_exact [of pre label_base t colons "v # rest"] by simp
next
  fix soup label_base v
  assume r: "find_label_value_soup soup label_base = Some v"
  then have "v \<noteq> '':'' \<and> (v \<noteq> [] \<or> v \<in> strip ` set (stripped_strings soup))"
    unfolding find_label_value_soup_def by (rule find_label_value_value)
  then show "v \<noteq> []" and "v \<noteq> '':''"
    using stripped_strings_tokens [of _ soup] by auto
qed

theorem find_label_value_spec_witness:
  "find_label_value ([''Titel'', ''Diarienummer: 2021/68''] @ ''SERIENUMMER '' # ['':'', '' : ''])
      ''Serienummer'' = None
   \<and> find_label_value
       ([''Titel'', ''Diarienummer: 2021/68''] @ ''SERIENUMMER '' # ['':'', '' : ''] @
        '' Rapport 2024:17'' # [''Diarienummer''])
       ''Serienummer'' = Some ''Rapport 2024:17''
   \<and> find_label_value_soup
        [Tag ''p'' [] None [Text ''Serienummer'', Text '' '', Text '': '', Text '' Rapport 2024:17'']]
        ''Serienummer'' = Some ''Rapport 2024:17''
   \<and> ''Rapport 2024:17'' \<noteq> [] \<and> ''Rapport 2024:17'' \<noteq> '':''"
proof -
  have pre: "\<forall>p \<in> set [''Titel'', ''Diarienummer: 2021/68'']. \<not> label_hit ''Serienummer'' p"
    by (simp add: label_hit_def strip_def isspace_def lower_def lower_char_def)
  have t: "lower (strip ''SERIENUMMER '') = lower ''Serienummer''"
    by (simp add: strip_def isspace_def lower_def lower_char_def)
  have colons: "\<forall>c \<in> set ['':'', '' : '']. strip c = '':''"
    by (simp add: strip_def isspace_def)
  have v: "strip '' Rapport 2024:17'' \<noteq> '':''"
    by (simp add: strip_def isspace_def)
  have soup: "find_label_value_soup
        [Tag ''p'' [] None [Text ''Serienummer'', Text '' '', Text '': '', Text '' Rapport 2024:17'']]
        ''Serienummer'' = Some ''Rapport 2024:17''"
    by (simp add: find_label_value_soup_def stripped_strings_def Let_def strip_def isspace_def
        lower_def lower_char_def)
  note general = find_label_value_spec [THEN conjunct2, THEN conjunct2, THEN conjunct2,
      THEN conjunct1, rule_format,
      of "[''Titel'', ''Diarienummer: 2021/68'']" "''Serienummer''" "''SERIENUMMER ''"
         "['':'', '' : '']"]
  note nonblank = find_label_value_spec [THEN conjunct2, THEN conjunct2, THEN conjunct2,
      THEN conjunct2, rule_format, OF soup]
  from pre t colons have none: "find_label_value
      ([''Titel'', ''Diarienummer: 2021/68''] @ ''SERIENUMMER '' # ['':'', '' : ''])
      ''Serienummer'' = None"
    using general [THEN conjunct1] by blast
  from pre t colons v have some: "find_label_value
       ([''Titel'', ''Diarienummer: 2021/68''] @ ''SERIENUMMER '' # ['':'', '' : ''] @
        '' Rapport 2024:17'' # [''Diarienummer''])
       ''Serienummer'' = Some (strip '' Rapport 2024:17'')"
    using general [THEN conjunct2, rule_format, of "'' Rapport 2024:17''" "[''Diarienummer'']"]
    by blast
  from none some soup nonblank show ?thesis
    by (simp only: strip_literal_examples simp_thms)
qed

section \<open>Properties of the junk-page pattern\<close>

text \<open>The matcher decides the words of the expression, and the words of the pattern are the
  paths of the shape it was written for.\<close>

lemma nullable_lang: "nullable r \<longleftrightarrow> [] \<in> lang r"
  by (induction r) (auto intro: star.star_empty)

lemma star_cons:
  "c # w \<in> star A \<longleftrightarrow> (\<exists>u v. w = u @ v \<and> c # u \<in> A \<and> v \<in> star A)"
proof
  assume "c # w \<in> star A"
  then show "\<exists>u v. w = u @ v \<and> c # u \<in> A \<and> v \<in> star A"
  proof (induction "c # w" rule: star.induct)
    case (star_more u v)
    show ?case
    proof (cases u)
      case Nil
      with star_more show ?thesis by simp
    next
      case (Cons a u')
      with star_more show ?thesis by auto
    qed
  qed
next
  assume "\<exists>u v. w = u @ v \<and> c # u \<in> A \<and> v \<in> star A"
  then obtain u v where "w = u @ v" "c # u \<in> A" "v \<in> star A" by blast
  then show "c # w \<in> star A"
    using star.star_more [of "c # u" A v] by simp
qed

lemma lang_deriv: "w \<in> lang (deriv c r) \<longleftrightarrow> c # w \<in> lang r"
proof (induction r arbitrary: w)
  case (Seq r s)
  have "c # w \<in> lang (Seq r s) \<longleftrightarrow>
        (\<exists>u v. w = u @ v \<and> c # u \<in> lang r \<and> v \<in> lang s) \<or> ([] \<in> lang r \<and> c # w \<in> lang s)"
    by (auto simp: Cons_eq_append_conv)
  with Seq show ?case
    by (auto simp: nullable_lang)
next
  case (Star r)
  then show ?case by (auto simp: star_cons)
qed auto

lemma matches_lang: "matches r s \<longleftrightarrow> s \<in> lang r"
  by (induction s arbitrary: r) (simp_all add: nullable_lang lang_deriv)

lemma star_cls: "star {[c] | c. P c} = {w. \<forall>c \<in> set w. P c}"
proof (intro set_eqI iffI)
  fix w assume "w \<in> star {[c] | c. P c}"
  then show "w \<in> {w. \<forall>c \<in> set w. P c}"
    by (induction rule: star.induct) auto
next
  fix w assume "w \<in> {w. \<forall>c \<in> set w. P c}"
  then show "w \<in> star {[c] | c. P c}"
  proof (induction w)
    case Nil
    show ?case by (rule star.star_empty)
  next
    case (Cons a w)
    then have "[a] \<in> {[c] | c. P c}" and "w \<in> star {[c] | c. P c}" by auto
    then have "[a] @ w \<in> star {[c] | c. P c}" by (rule star.star_more)
    then show ?case by simp
  qed
qed

lemma lang_Seq_iff: "w \<in> lang (Seq r s) \<longleftrightarrow> (\<exists>u v. w = u @ v \<and> u \<in> lang r \<and> v \<in> lang s)"
  by auto

lemma lang_Plus_Cls: "w \<in> lang (Plus (Cls P)) \<longleftrightarrow> w \<noteq> [] \<and> (\<forall>c \<in> set w. P c)"
proof
  assume "w \<in> lang (Plus (Cls P))"
  then show "w \<noteq> [] \<and> (\<forall>c \<in> set w. P c)"
    by (auto simp: Plus_def star_cls)
next
  assume "w \<noteq> [] \<and> (\<forall>c \<in> set w. P c)"
  then obtain c v where "w = [c] @ v" "P c" "\<forall>c \<in> set v. P c"
    by (cases w) auto
  then have "w = [c] @ v \<and> [c] \<in> lang (Cls P) \<and> v \<in> lang (Star (Cls P))"
    by (simp add: star_cls)
  then show "w \<in> lang (Plus (Cls P))"
    unfolding Plus_def lang_Seq_iff by blast
qed

lemma lang_Lit: "lang (Lit c) = {[c]}"
  by (auto simp: Lit_def)

lemma lang_Str: "lang (Str s) = {s}"
  by (induction s) (auto simp: Str_def lang_Lit)

lemma lang_Opt: "w \<in> lang (Opt r) \<longleftrightarrow> w = [] \<or> w \<in> lang r"
  by (auto simp: Opt_def)

lemma lang_SeqI: "u \<in> lang r \<Longrightarrow> v \<in> lang s \<Longrightarrow> u @ v \<in> lang (Seq r s)"
  by auto

lemma lang_SeqE:
  assumes "w \<in> lang (Seq r s)"
  obtains u v where "w = u @ v" "u \<in> lang r" "v \<in> lang s"
  using assms by auto

lemma lang_junk_general:
  "p \<in> lang (Seq (Lit sl) (Seq (Plus (Cls D)) (Seq (Opt (Seq (Lit dot) (Plus (Cls H)))) (Str suffix))))
   \<longleftrightarrow> (\<exists>ds. ds \<noteq> [] \<and> (\<forall>c \<in> set ds. D c) \<and>
        (p = [sl] @ ds @ suffix \<or>
         (\<exists>hs. hs \<noteq> [] \<and> (\<forall>c \<in> set hs. H c) \<and> p = [sl] @ ds @ [dot] @ hs @ suffix)))"
  (is "?L \<longleftrightarrow> ?R")
proof
  assume ?L
  then obtain a r1 where p1: "p = a @ r1" and a: "a \<in> lang (Lit sl)"
    and r1: "r1 \<in> lang (Seq (Plus (Cls D)) (Seq (Opt (Seq (Lit dot) (Plus (Cls H)))) (Str suffix)))"
    by (rule lang_SeqE)
  from r1 obtain ds r2 where p2: "r1 = ds @ r2" and ds: "ds \<in> lang (Plus (Cls D))"
    and r2: "r2 \<in> lang (Seq (Opt (Seq (Lit dot) (Plus (Cls H)))) (Str suffix))"
    by (rule lang_SeqE)
  from r2 obtain m r3 where p3: "r2 = m @ r3" and m: "m \<in> lang (Opt (Seq (Lit dot) (Plus (Cls H))))"
    and r3: "r3 \<in> lang (Str suffix)"
    by (rule lang_SeqE)
  from a r3 p1 p2 p3 have p: "p = [sl] @ ds @ m @ suffix"
    by (simp add: lang_Lit lang_Str)
  from ds have dsp: "ds \<noteq> [] \<and> (\<forall>c \<in> set ds. D c)"
    by (simp add: lang_Plus_Cls)
  from m have "m = [] \<or> m \<in> lang (Seq (Lit dot) (Plus (Cls H)))"
    by (simp add: lang_Opt)
  then show ?R
  proof
    assume "m = []"
    with p dsp show ?R by auto
  next
    assume "m \<in> lang (Seq (Lit dot) (Plus (Cls H)))"
    then obtain d hs where "m = d @ hs" "d \<in> lang (Lit dot)" "hs \<in> lang (Plus (Cls H))"
      by (rule lang_SeqE)
    then have "m = [dot] @ hs" "hs \<noteq> [] \<and> (\<forall>c \<in> set hs. H c)"
      by (simp_all add: lang_Lit lang_Plus_Cls)
    with p dsp show ?R by auto
  qed
next
  assume ?R
  then obtain ds where ds: "ds \<noteq> [] \<and> (\<forall>c \<in> set ds. D c)"
    and cases: "p = [sl] @ ds @ suffix \<or>
         (\<exists>hs. hs \<noteq> [] \<and> (\<forall>c \<in> set hs. H c) \<and> p = [sl] @ ds @ [dot] @ hs @ suffix)"
    by blast
  have build: "[sl] @ ds @ m @ suffix
      \<in> lang (Seq (Lit sl) (Seq (Plus (Cls D)) (Seq (Opt (Seq (Lit dot) (Plus (Cls H)))) (Str suffix))))"
    if "m \<in> lang (Opt (Seq (Lit dot) (Plus (Cls H))))" for m
  proof (intro lang_SeqI)
    show "[sl] \<in> lang (Lit sl)" by (simp add: lang_Lit)
    show "ds \<in> lang (Plus (Cls D))" using ds by (simp add: lang_Plus_Cls)
    show "m \<in> lang (Opt (Seq (Lit dot) (Plus (Cls H))))" by (rule that)
    show "suffix \<in> lang (Str suffix)" by (simp add: lang_Str)
  qed
  from cases show ?L
  proof
    assume "p = [sl] @ ds @ suffix"
    then show ?L using build [of "[]"] by (simp add: lang_Opt)
  next
    assume "\<exists>hs. hs \<noteq> [] \<and> (\<forall>c \<in> set hs. H c) \<and> p = [sl] @ ds @ [dot] @ hs @ suffix"
    then obtain hs where hs: "hs \<noteq> [] \<and> (\<forall>c \<in> set hs. H c)" and p: "p = [sl] @ ds @ [dot] @ hs @ suffix"
      by blast
    have "[dot] @ hs \<in> lang (Seq (Lit dot) (Plus (Cls H)))"
      using hs by (intro lang_SeqI) (simp_all add: lang_Lit lang_Plus_Cls)
    then have "[dot] @ hs \<in> lang (Opt (Seq (Lit dot) (Plus (Cls H))))"
      by (simp only: lang_Opt simp_thms)
    from build [OF this] p show ?L by simp
  qed
qed

lemma ustr_simps: "ustr [] = []" "ustr (c # cs) = of_char c # ustr cs"
  by (simp_all add: ustr_def)

lemma lang_junk_pattern: "p \<in> lang (junk_pattern D) \<longleftrightarrow> junk_shape D p"
  unfolding junk_pattern_def junk_shape_def lang_junk_general by (simp add: ustr_simps)

lemma is_junk_page_iff:
  assumes "0x0A \<notin> set p"
  shows "is_junk_page D p \<longleftrightarrow> junk_shape D p"
proof -
  have "\<not> (p \<noteq> [] \<and> last p = 0x0A)"
    using assms last_in_set by metis
  then show ?thesis
    unfolding is_junk_page_def re_match_to_end_def matches_lang lang_junk_pattern by blast
qed

lemma junk_shape_chars:
  assumes "junk_shape D p" and "c \<in> set p"
  shows "D c \<or> lower_a_to_f c \<or> c \<in> set (ustr ''/.html'')"
proof -
  from assms(1) obtain ds where ds: "\<forall>c \<in> set ds. D c"
    and cases: "p = ustr ''/'' @ ds @ ustr ''.html'' \<or>
         (\<exists>hs. hs \<noteq> [] \<and> (\<forall>c \<in> set hs. D c \<or> lower_a_to_f c) \<and>
               p = ustr ''/'' @ ds @ ustr ''.'' @ hs @ ustr ''.html'')"
    unfolding junk_shape_def by blast
  from cases show ?thesis
  proof
    assume "p = ustr ''/'' @ ds @ ustr ''.html''"
    with assms(2) have "c \<in> set ds \<or> c \<in> set (ustr ''/.html'')"
      by (auto simp: ustr_simps)
    with ds show ?thesis by blast
  next
    assume "\<exists>hs. hs \<noteq> [] \<and> (\<forall>c \<in> set hs. D c \<or> lower_a_to_f c) \<and>
               p = ustr ''/'' @ ds @ ustr ''.'' @ hs @ ustr ''.html''"
    then obtain hs where hs: "\<forall>c \<in> set hs. D c \<or> lower_a_to_f c"
      and p: "p = ustr ''/'' @ ds @ ustr ''.'' @ hs @ ustr ''.html''"
      by blast
    from p assms(2) have "c \<in> set ds \<or> c \<in> set hs \<or> c \<in> set (ustr ''/.html'')"
      by (auto simp: ustr_simps)
    with ds hs show ?thesis by blast
  qed
qed

lemma junk_shape_one_segment:
  assumes "junk_shape D p" and "\<not> D (of_char CHR ''/'')"
  shows "hd p = of_char CHR ''/'' \<and> of_char CHR ''/'' \<notin> set (tl p)"
proof -
  have h: "\<not> lower_a_to_f (of_char CHR ''/'')"
    by (simp add: lower_a_to_f_def ustr_simps)
  from assms(1) obtain ds where ds: "\<forall>c \<in> set ds. D c"
    and cases: "p = ustr ''/'' @ ds @ ustr ''.html'' \<or>
         (\<exists>hs. hs \<noteq> [] \<and> (\<forall>c \<in> set hs. D c \<or> lower_a_to_f c) \<and>
               p = ustr ''/'' @ ds @ ustr ''.'' @ hs @ ustr ''.html'')"
    unfolding junk_shape_def by blast
  from ds assms(2) have nds: "of_char CHR ''/'' \<notin> set ds" by blast
  from cases show ?thesis
  proof
    assume "p = ustr ''/'' @ ds @ ustr ''.html''"
    with nds show ?thesis by (simp add: ustr_simps)
  next
    assume "\<exists>hs. hs \<noteq> [] \<and> (\<forall>c \<in> set hs. D c \<or> lower_a_to_f c) \<and>
               p = ustr ''/'' @ ds @ ustr ''.'' @ hs @ ustr ''.html''"
    then obtain hs where hs: "\<forall>c \<in> set hs. D c \<or> lower_a_to_f c"
      and p: "p = ustr ''/'' @ ds @ ustr ''.'' @ hs @ ustr ''.html''"
      by blast
    from hs h assms(2) have "of_char CHR ''/'' \<notin> set hs" by blast
    with nds p show ?thesis by (simp add: ustr_simps)
  qed
qed

lemma unicode_table_ascii:
  assumes "unicode_table D"
  shows "D (of_char CHR ''1'')" "D (of_char CHR ''2'')" "D (of_char CHR ''3'')"
    "\<not> D (of_char CHR ''/'')" "\<not> D (of_char CHR ''o'')"
  using assms by (simp_all add: unicode_table_def ascii_digit_def ustr_simps)

lemma junk_literal_true:
  assumes "unicode_table D"
  shows "is_junk_page D (ustr ''/123.abcdef.html'')"
proof -
  have nl: "0x0A \<notin> set (ustr ''/123.abcdef.html'')"
    by (simp add: ustr_simps)
  have "ustr ''123'' \<noteq> [] \<and> (\<forall>c \<in> set (ustr ''123''). D c)"
    using unicode_table_ascii [OF assms] by (simp add: ustr_simps)
  moreover have "ustr ''abcdef'' \<noteq> [] \<and> (\<forall>c \<in> set (ustr ''abcdef''). D c \<or> lower_a_to_f c)"
    by (simp add: lower_a_to_f_def ustr_simps)
  moreover have "ustr ''/123.abcdef.html''
      = ustr ''/'' @ ustr ''123'' @ ustr ''.'' @ ustr ''abcdef'' @ ustr ''.html''"
    by (simp add: ustr_simps)
  ultimately have "junk_shape D (ustr ''/123.abcdef.html'')"
    unfolding junk_shape_def by blast
  with is_junk_page_iff [OF nl, of D] show ?thesis by blast
qed

lemma junk_literal_false:
  assumes "unicode_table D"
  shows "\<not> is_junk_page D (ustr ''/about.html'')" "\<not> is_junk_page D (ustr ''/12/report.html'')"
proof -
  have o: "\<not> (D (of_char CHR ''o'') \<or> lower_a_to_f (of_char CHR ''o'')
             \<or> of_char CHR ''o'' \<in> set (ustr ''/.html''))"
    using unicode_table_ascii [OF assms] by (simp add: lower_a_to_f_def ustr_simps)
  have a: "of_char CHR ''o'' \<in> set (ustr ''/about.html'')"
    and b: "of_char CHR ''o'' \<in> set (ustr ''/12/report.html'')"
    by (simp_all add: ustr_simps)
  have na: "0x0A \<notin> set (ustr ''/about.html'')" and nb: "0x0A \<notin> set (ustr ''/12/report.html'')"
    by (simp_all add: ustr_simps)
  from o a junk_shape_chars [of D "ustr ''/about.html''"]
  have "\<not> junk_shape D (ustr ''/about.html'')" by blast
  with is_junk_page_iff [OF na, of D] show "\<not> is_junk_page D (ustr ''/about.html'')" by blast
  from o b junk_shape_chars [of D "ustr ''/12/report.html''"]
  have "\<not> junk_shape D (ustr ''/12/report.html'')" by blast
  with is_junk_page_iff [OF nb, of D] show "\<not> is_junk_page D (ustr ''/12/report.html'')" by blast
qed

lemmas junk_eval_defs =
  is_junk_page_def re_match_to_end_def junk_pattern_def Lit_def Str_def Plus_def Opt_def
  lower_a_to_f_def ustr_simps

lemma ascii_digit_range: "ascii_digit c \<longleftrightarrow> 48 \<le> c \<and> c \<le> 57"
proof -
  have "ascii_digit c \<longleftrightarrow> c \<in> {48, 49, 50, 51, 52, 53, 54, 55, 56, 57}"
    by (simp add: ascii_digit_def ustr_simps)
  also have "\<dots> \<longleftrightarrow> 48 \<le> c \<and> c \<le> 57"
    by (simp only: insert_iff empty_iff) arith
  finally show ?thesis .
qed

lemma example_table: "unicode_table example_isdecimal"
  by (simp add: unicode_table_def example_isdecimal_def ascii_digit_range)

lemma spec_junk_shape_chars:
  assumes "spec_junk_shape p" and "c \<in> set p"
  shows "spec_hexadecimal c \<or> c \<in> set (ustr ''/.html'')"
proof -
  from assms(1) obtain ds where ds: "\<forall>c \<in> set ds. ascii_digit c"
    and cases: "p = ustr ''/'' @ ds @ ustr ''.html'' \<or>
         (\<exists>hs. hs \<noteq> [] \<and> (\<forall>c \<in> set hs. spec_hexadecimal c) \<and>
               p = ustr ''/'' @ ds @ ustr ''.'' @ hs @ ustr ''.html'')"
    unfolding spec_junk_shape_def by blast
  have dh: "ascii_digit d \<Longrightarrow> spec_hexadecimal d" for d
    by (auto simp: ascii_digit_def spec_hexadecimal_def ustr_simps)
  from cases show ?thesis
  proof
    assume "p = ustr ''/'' @ ds @ ustr ''.html''"
    with assms(2) have "c \<in> set ds \<or> c \<in> set (ustr ''/.html'')"
      by (auto simp: ustr_simps)
    with ds dh show ?thesis by blast
  next
    assume "\<exists>hs. hs \<noteq> [] \<and> (\<forall>c \<in> set hs. spec_hexadecimal c) \<and>
               p = ustr ''/'' @ ds @ ustr ''.'' @ hs @ ustr ''.html''"
    then obtain hs where hs: "\<forall>c \<in> set hs. spec_hexadecimal c"
      and p: "p = ustr ''/'' @ ds @ ustr ''.'' @ hs @ ustr ''.html''"
      by blast
    from p assms(2) have "c \<in> set ds \<or> c \<in> set hs \<or> c \<in> set (ustr ''/.html'')"
      by (auto simp: ustr_simps)
    with ds hs dh show ?thesis by blast
  qed
qed

text \<open>
  Claim C6, as stated, fails in both directions. The path \<open>/123.AB.html\<close> is one segment of
  digits, a dot, a hexadecimal suffix and \<open>.html\<close>, and the predicate does not hold of it: the
  pattern has the lower-case letters only. And the predicate holds of a path whose suffix has
  the Arabic-Indic digit four, which is not a hexadecimal digit, so that the path is not of
  the specified shape.
\<close>

theorem junk_page_shape_counterexample:
  "spec_junk_shape (ustr ''/123.AB.html'')
   \<and> \<not> is_junk_page example_isdecimal (ustr ''/123.AB.html'')
   \<and> is_junk_page example_isdecimal (ustr ''/123.'' @ [0x664] @ ustr ''a.html'')
   \<and> \<not> spec_junk_shape (ustr ''/123.'' @ [0x664] @ ustr ''a.html'')"
proof (intro conjI)
  have "ustr ''123'' \<noteq> [] \<and> (\<forall>c \<in> set (ustr ''123''). ascii_digit c)"
    by (simp add: ascii_digit_def ustr_simps)
  moreover have "ustr ''AB'' \<noteq> [] \<and> (\<forall>c \<in> set (ustr ''AB''). spec_hexadecimal c)"
    by (simp add: spec_hexadecimal_def ustr_simps)
  moreover have "ustr ''/123.AB.html''
      = ustr ''/'' @ ustr ''123'' @ ustr ''.'' @ ustr ''AB'' @ ustr ''.html''"
    by (simp add: ustr_simps)
  ultimately show "spec_junk_shape (ustr ''/123.AB.html'')"
    unfolding spec_junk_shape_def by blast
  show "\<not> is_junk_page example_isdecimal (ustr ''/123.AB.html'')"
    by (simp add: junk_eval_defs example_isdecimal_def)
  show "is_junk_page example_isdecimal (ustr ''/123.'' @ [0x664] @ ustr ''a.html'')"
    by (simp add: junk_eval_defs example_isdecimal_def)
  have "\<not> (spec_hexadecimal 0x664 \<or> 0x664 \<in> set (ustr ''/.html''))"
    by (simp add: spec_hexadecimal_def ustr_simps)
  moreover have "0x664 \<in> set (ustr ''/123.'' @ [0x664] @ ustr ''a.html'')"
    by simp
  ultimately show "\<not> spec_junk_shape (ustr ''/123.'' @ [0x664] @ ustr ''a.html'')"
    using spec_junk_shape_chars by blast
qed

text \<open>
  Claim C6, amended. Whatever the table of decimal digits is beyond ASCII, the junk-page
  predicate holds of the path \<open>/123.abcdef.html\<close> and fails on \<open>/about.html\<close> and on the
  two-segment path \<open>/12/report.html\<close>. On every path without a line feed (the paths
  \<^verbatim>\<open>urlparse\<close> gives: it removes line feeds from a URL) the predicate holds exactly of the paths
  made of a slash, one or more decimal digits of any script, optionally a dot and one or more
  characters that are each a decimal digit of any script or a lower-case letter a to f, and
  \<open>.html\<close>; such a path is a single segment.
\<close>

theorem is_junk_page_spec:
  assumes "unicode_table digits"
  shows "is_junk_page digits (ustr ''/123.abcdef.html'')
   \<and> \<not> is_junk_page digits (ustr ''/about.html'')
   \<and> \<not> is_junk_page digits (ustr ''/12/report.html'')
   \<and> (\<forall>p. 0x0A \<notin> set p \<longrightarrow> (is_junk_page digits p \<longleftrightarrow> junk_shape digits p))
   \<and> (\<forall>p. junk_shape digits p \<longrightarrow>
         hd p = of_char CHR ''/'' \<and> of_char CHR ''/'' \<notin> set (tl p))"
  using junk_literal_true [OF assms] junk_literal_false [OF assms] is_junk_page_iff
    junk_shape_one_segment [of digits] unicode_table_ascii(4) [OF assms]
  by blast

theorem is_junk_page_spec_witness:
  "unicode_table example_isdecimal
   \<and> is_junk_page example_isdecimal (ustr ''/123.abcdef.html'')
   \<and> 0x0A \<notin> set (ustr ''/'' @ [0x661, 0x662, 0x663] @ ustr ''.html'')
   \<and> junk_shape example_isdecimal (ustr ''/'' @ [0x661, 0x662, 0x663] @ ustr ''.html'')
   \<and> 0x0A \<notin> set (ustr ''/42.0A.html'')
   \<and> \<not> junk_shape example_isdecimal (ustr ''/42.0A.html'')"
proof -
  note t = is_junk_page_spec [OF example_table]
  have a: "0x0A \<notin> set (ustr ''/'' @ [0x661, 0x662, 0x663] @ ustr ''.html'')"
    and b: "0x0A \<notin> set (ustr ''/42.0A.html'')"
    by (simp_all add: ustr_simps)
  have ja: "is_junk_page example_isdecimal (ustr ''/'' @ [0x661, 0x662, 0x663] @ ustr ''.html'')"
    and jb: "\<not> is_junk_page example_isdecimal (ustr ''/42.0A.html'')"
    by (simp_all add: junk_eval_defs example_isdecimal_def)
  from t a ja have sa: "junk_shape example_isdecimal (ustr ''/'' @ [0x661, 0x662, 0x663] @ ustr ''.html'')"
    by blast
  from t b jb have sb: "\<not> junk_shape example_isdecimal (ustr ''/42.0A.html'')"
    by blast
  from t example_table a b sa sb show ?thesis by blast
qed

section \<open>Properties of the crawler\<close>

text \<open>The loop over the links of a page, field by field, and the cases of one iteration.\<close>

lemma process_link_raised: "raised s \<Longrightarrow> process_link w b m d f s hl = s"
  by (simp add: process_link_def)

lemma process_link_classify:
  "\<not> raised s \<Longrightarrow>
   process_link w b m d f s hl =
     (case classify w b f (fst hl) of
        Raises \<Rightarrow> s\<lparr>raised := True\<rparr>
      | OffDomain \<Rightarrow> s
      | Junk \<Rightarrow> s
      | Document u \<Rightarrow> s\<lparr>pdf_links := pdf_links s @ [(u, snd hl)]\<rparr>
      | Page u \<Rightarrow>
          if d < m \<and> u \<notin> visited s then
            s\<lparr>to_visit := to_visit s @ [(u, d + 1)], events := events s @ [Enqueue u (d + 1)]\<rparr>
          else s)"
  by (simp add: process_link_def classify_def Let_def split: option.split prod.split)

lemma process_links_simps:
  "process_links w b m d f s [] = s"
  "process_links w b m d f s (hl # links) = process_links w b m d f (process_link w b m d f s hl) links"
  by (simp_all add: process_links_def)

lemma process_links_raised: "raised s \<Longrightarrow> process_links w b m d f s links = s"
  by (induction links) (simp_all add: process_links_simps process_link_raised)

lemma processed_simps:
  "processed w b f [] = []"
  "processed w b f (hl # links) =
     (if classify w b f (fst hl) = Raises then [] else hl # processed w b f links)"
  by (simp_all add: processed_def)

lemma process_links_fields:
  "\<not> raised s \<Longrightarrow>
   visited (process_links w b m d f s links) = visited s
   \<and> pdf_links (process_links w b m d f s links) = pdf_links s @ new_documents w b f links
   \<and> to_visit (process_links w b m d f s links)
       = to_visit s @ new_pages w b m d f (visited s) links
   \<and> events (process_links w b m d f s links)
       = events s @ map (\<lambda>e. Enqueue (fst e) (snd e)) (new_pages w b m d f (visited s) links)
   \<and> raised (process_links w b m d f s links)
       = (\<exists>hl \<in> set links. classify w b f (fst hl) = Raises)"
proof (induction links arbitrary: s)
  case Nil
  then show ?case
    by (simp add: process_links_simps new_documents_def new_pages_def processed_simps)
next
  case (Cons hl links)
  show ?case
  proof (cases "classify w b f (fst hl)")
    case Raises
    with Cons.prems show ?thesis
      by (simp add: process_links_simps process_link_classify process_links_raised
          new_documents_def new_pages_def processed_simps)
  next
    case OffDomain
    with Cons.prems Cons.IH [of s] show ?thesis
      by (simp add: process_links_simps process_link_classify
          new_documents_def new_pages_def processed_simps)
  next
    case Junk
    with Cons.prems Cons.IH [of s] show ?thesis
      by (simp add: process_links_simps process_link_classify
          new_documents_def new_pages_def processed_simps)
  next
    case (Document u)
    with Cons.prems Cons.IH [of "s\<lparr>pdf_links := pdf_links s @ [(u, snd hl)]\<rparr>"] show ?thesis
      by (simp add: process_links_simps process_link_classify
          new_documents_def new_pages_def processed_simps)
  next
    case (Page u)
    with Cons.prems Cons.IH [of s]
      Cons.IH [of "s\<lparr>to_visit := to_visit s @ [(u, d + 1)], events := events s @ [Enqueue u (d + 1)]\<rparr>"]
    show ?thesis
      by (simp add: process_links_simps process_link_classify
          new_documents_def new_pages_def processed_simps)
  qed
qed

lemma new_pages_weight:
  "e \<in> set (new_pages w b m d f vis links) \<Longrightarrow> weight m e < weight m (u, d)"
  by (auto simp: new_pages_def weight_def split: link_class.splits if_splits)

lemma crawl_iter_skip:
  "to_visit s = (u, d) # rest \<Longrightarrow> u \<in> visited s \<Longrightarrow>
   crawl_iter w b m s = s\<lparr>to_visit := rest\<rparr>"
  by (simp add: crawl_iter_def)

lemma crawl_iter_fail:
  "to_visit s = (u, d) # rest \<Longrightarrow> u \<notin> visited s \<Longrightarrow>
   fetch_page w (fetched (events s)) u = None \<Longrightarrow>
   crawl_iter w b m s
     = s\<lparr>to_visit := rest, visited := insert u (visited s), events := events s @ [Fetch u]\<rparr>"
  by (simp add: crawl_iter_def)

lemma crawl_iter_undecodable:
  "to_visit s = (u, d) # rest \<Longrightarrow> u \<notin> visited s \<Longrightarrow>
   fetch_page w (fetched (events s)) u = Some r \<Longrightarrow> html_content r = None \<Longrightarrow>
   crawl_iter w b m s
     = s\<lparr>to_visit := rest, visited := insert u (visited s), events := events s @ [Fetch u],
         raised := True\<rparr>"
  by (simp add: crawl_iter_def)

lemma crawl_iter_page:
  "to_visit s = (u, d) # rest \<Longrightarrow> u \<notin> visited s \<Longrightarrow>
   fetch_page w (fetched (events s)) u = Some r \<Longrightarrow> html_content r = Some html \<Longrightarrow>
   crawl_iter w b m s
     = process_links w b m d (resp_url r)
         (s\<lparr>to_visit := rest, visited := insert u (visited s), events := events s @ [Fetch u]\<rparr>)
         (find_all_a_href (parse_html w html))"
  by (simp add: crawl_iter_def)

lemma crawl_iter_cases [consumes 2, case_names skip fail undecodable page]:
  assumes "to_visit s = (u, d) # rest" and "\<not> raised s"
  obtains
    (skip) "u \<in> visited s" "crawl_iter w b m s = s\<lparr>to_visit := rest\<rparr>"
  | (fail) "u \<notin> visited s" "fetch_page w (fetched (events s)) u = None"
      "crawl_iter w b m s
         = s\<lparr>to_visit := rest, visited := insert u (visited s), events := events s @ [Fetch u]\<rparr>"
  | (undecodable) r where "u \<notin> visited s" "fetch_page w (fetched (events s)) u = Some r"
      "html_content r = None"
      "crawl_iter w b m s
         = s\<lparr>to_visit := rest, visited := insert u (visited s), events := events s @ [Fetch u],
             raised := True\<rparr>"
  | (page) r html where "u \<notin> visited s" "fetch_page w (fetched (events s)) u = Some r"
      "html_content r = Some html"
      "crawl_iter w b m s
         = process_links w b m d (resp_url r)
             (s\<lparr>to_visit := rest, visited := insert u (visited s), events := events s @ [Fetch u]\<rparr>)
             (find_all_a_href (parse_html w html))"
proof (cases "u \<in> visited s")
  case True
  with assms(1) skip show ?thesis by (simp add: crawl_iter_skip)
next
  case False
  show ?thesis
  proof (cases "fetch_page w (fetched (events s)) u")
    case None
    with assms(1) False fail show ?thesis by (simp add: crawl_iter_fail)
  next
    case (Some r)
    show ?thesis
    proof (cases "html_content r")
      case None
      with assms(1) False Some undecodable show ?thesis by (simp add: crawl_iter_undecodable)
    next
      case (Some html)
      with assms(1) False \<open>fetch_page w (fetched (events s)) u = Some r\<close> page show ?thesis
        by (simp add: crawl_iter_page)
    qed
  qed
qed

lemma crawl_iter_to_visit:
  assumes s: "to_visit s = (u, d) # rest" and nr: "\<not> raised s"
  shows "\<exists>new. to_visit (crawl_iter w b m s) = rest @ new
               \<and> (\<forall>e \<in> set new. weight m e < weight m (u, d))"
  using s nr
proof (cases rule: crawl_iter_cases [where w = w and b = b and m = m])
  case skip
  then have "to_visit (crawl_iter w b m s) = rest @ []" by simp
  then show ?thesis by fastforce
next
  case fail
  then have "to_visit (crawl_iter w b m s) = rest @ []" by simp
  then show ?thesis by fastforce
next
  case undecodable
  then have "to_visit (crawl_iter w b m s) = rest @ []" by simp
  then show ?thesis by fastforce
next
  case (page r html)
  from nr have "to_visit (crawl_iter w b m s)
      = rest @ new_pages w b m d (resp_url r) (insert u (visited s))
                 (find_all_a_href (parse_html w html))"
    by (simp add: page(4) process_links_fields)
  then show ?thesis
    using new_pages_weight by blast
qed

lemma crawl_iter_decreases:
  assumes "to_visit s \<noteq> []" and "\<not> raised s"
  shows "mset (map (weight m) (to_visit (crawl_iter w b m s))) < mset (map (weight m) (to_visit s))"
proof -
  from assms obtain u d rest where s: "to_visit s = (u, d) # rest"
    by (cases "to_visit s") auto
  from crawl_iter_to_visit [OF s assms(2)] obtain new where
    n: "to_visit (crawl_iter w b m s) = rest @ new" and
    lt: "\<forall>e \<in> set new. weight m e < weight m (u, d)"
    by blast
  from lt have "mset (map (weight m) new) < {#weight m (u, d)#}"
    by simp
  then have "mset (map (weight m) rest) + mset (map (weight m) new)
             < mset (map (weight m) rest) + {#weight m (u, d)#}"
    by simp
  with n s show ?thesis by simp
qed

termination crawl_loop
proof (relation "inv_image {(M, N). M < N}
    (\<lambda>(w, b, m, s). mset (map (weight m) (to_visit s)))")
  show "wf (inv_image {(M :: nat multiset, N). M < N}
    (\<lambda>(w :: world, b :: ustring, m, s). mset (map (weight m) (to_visit s))))"
    by (rule wf_inv_image) (rule wf_less_multiset)
next
  fix w :: world and base_url :: ustring and max_depth :: int and s :: crawl_state
  assume "\<not> (to_visit s = [] \<or> raised s)"
  then show "((w, base_url, max_depth, crawl_iter w base_url max_depth s), (w, base_url, max_depth, s))
      \<in> inv_image {(M, N). M < N} (\<lambda>(w, b, m, s). mset (map (weight m) (to_visit s)))"
    using crawl_iter_decreases [of s max_depth w base_url] by simp
qed

declare crawl_loop.simps [simp del]

lemma fetched_append: "fetched (es @ fs) = fetched es @ fetched fs"
  by (induction es rule: fetched.induct) simp_all

lemma fetched_enqueues: "fetched (map (\<lambda>e. Enqueue (fst e) (snd e)) new) = []"
  by (induction new) simp_all

lemma fetched_subset: "set (fetched es) \<subseteq> event_url ` set es"
  by (induction es rule: fetched.induct) auto

lemma settled_snoc:
  "settled (es @ [e]) \<longleftrightarrow> settled es \<and> event_url e \<notin> set (fetched es)"
proof (induction es rule: settled.induct)
  case 1
  show ?case by (cases e) simp_all
qed auto

lemma settled_append_enqueues:
  "settled (es @ map (\<lambda>e. Enqueue (fst e) (snd e)) new)
     \<longleftrightarrow> settled es \<and> (\<forall>e \<in> set new. fst e \<notin> set (fetched es))"
proof (induction new rule: rev_induct)
  case Nil
  show ?case by simp
next
  case (snoc x xs)
  have "settled (es @ map (\<lambda>e. Enqueue (fst e) (snd e)) (xs @ [x]))
        = settled ((es @ map (\<lambda>e. Enqueue (fst e) (snd e)) xs) @ [Enqueue (fst x) (snd x)])"
    by simp
  also have "\<dots> = (settled (es @ map (\<lambda>e. Enqueue (fst e) (snd e)) xs) \<and> fst x \<notin> set (fetched es))"
    by (simp only: settled_snoc) (simp add: fetched_append fetched_enqueues)
  finally show ?case
    using snoc by auto
qed

lemma settled_split:
  "settled (xs @ Fetch u # ys) \<Longrightarrow> Fetch u \<notin> set ys \<and> (\<forall>d. Enqueue u d \<notin> set ys)"
proof (induction xs rule: settled.induct)
  case 1
  then show ?case by (force simp: image_iff)
qed simp_all

lemma new_pages_unvisited:
  "e \<in> set (new_pages w b m d f vis links) \<Longrightarrow> fst e \<notin> vis"
  by (auto simp: new_pages_def split: link_class.splits if_splits)

lemma crawl_inv_enqueue:
  assumes "crawl_inv s2"
    and "visited s' = visited s2"
    and "events s' = events s2 @ map (\<lambda>e. Enqueue (fst e) (snd e)) new"
    and "\<forall>e \<in> set new. fst e \<notin> visited s2"
  shows "crawl_inv s'"
  using assms
  by (simp add: crawl_inv_def fetched_append fetched_enqueues settled_append_enqueues)

lemma crawl_iter_inv:
  assumes inv: "crawl_inv s" and nr: "\<not> raised s"
  shows "crawl_inv (crawl_iter w b m s)"
proof (cases "to_visit s")
  case Nil
  with inv show ?thesis by (simp add: crawl_iter_def)
next
  case (Cons e rest)
  obtain u d where e: "e = (u, d)" by (cases e)
  with Cons have s: "to_visit s = (u, d) # rest" by simp
  define s2 where
    "s2 = s\<lparr>to_visit := rest, visited := insert u (visited s), events := events s @ [Fetch u]\<rparr>"
  have inv2: "crawl_inv s2" if "u \<notin> visited s"
    using inv that by (simp add: s2_def crawl_inv_def fetched_append settled_snoc)
  from nr have nr2: "\<not> raised s2" by (simp add: s2_def)
  from s nr show ?thesis
  proof (cases rule: crawl_iter_cases [where w = w and b = b and m = m])
    case skip
    with inv show ?thesis by (simp add: crawl_inv_def)
  next
    case fail
    with inv2 show ?thesis by (simp add: s2_def)
  next
    case undecodable
    with inv2 show ?thesis by (simp add: s2_def crawl_inv_def)
  next
    case (page r html)
    define links where "links = find_all_a_href (parse_html w html)"
    have it: "crawl_iter w b m s = process_links w b m d (resp_url r) s2 links"
      by (simp add: page(4) s2_def links_def)
    note f = process_links_fields [OF nr2, of w b m d "resp_url r" links]
    show ?thesis
    proof (rule crawl_inv_enqueue [OF inv2 [OF page(1)]])
      show "visited (crawl_iter w b m s) = visited s2"
        using f by (simp add: it)
      show "events (crawl_iter w b m s)
            = events s2 @ map (\<lambda>e. Enqueue (fst e) (snd e))
                            (new_pages w b m d (resp_url r) (visited s2) links)"
        using f by (simp only: it)
      show "\<forall>e \<in> set (new_pages w b m d (resp_url r) (visited s2) links). fst e \<notin> visited s2"
        using new_pages_unvisited by blast
    qed
  qed
qed

lemma crawl_loop_inv: "crawl_inv s \<Longrightarrow> crawl_inv (crawl_loop w b m s)"
proof (induction w b m s rule: crawl_loop.induct)
  case (1 w b m s)
  show ?case
  proof (cases "to_visit s = [] \<or> raised s")
    case True
    with "1.prems" show ?thesis by (simp add: crawl_loop.simps)
  next
    case False
    then have nr: "\<not> raised s" by simp
    from "1.IH" [OF False crawl_iter_inv [OF "1.prems" nr]] False show ?thesis
      by (simp add: crawl_loop.simps [of w b m s])
  qed
qed

lemma crawl_loop_ends: "raised (crawl_loop w b m s) \<or> to_visit (crawl_loop w b m s) = []"
proof (induction w b m s rule: crawl_loop.induct)
  case (1 w b m s)
  then show ?case
    by (cases "to_visit s = [] \<or> raised s") (auto simp: crawl_loop.simps [of w b m s])
qed

text \<open>The runs of the crawler on the example webs.\<close>

lemma cyclic_run:
  "events (crawl_for_pdfs cyclic_web (ustr ''http://a/'') 3)
     = [Fetch (ustr ''http://a/''), Enqueue (ustr ''http://a/x'') 1,
        Enqueue (ustr ''http://a/x'') 1, Fetch (ustr ''http://a/x'')]"
  "to_visit (crawl_for_pdfs cyclic_web (ustr ''http://a/'') 3) = []"
  "\<not> raised (crawl_for_pdfs cyclic_web (ustr ''http://a/'') 3)"
  by code_simp+

lemma chain_run:
  "events (crawl_for_pdfs chain_web (ustr ''http://a/'') 1)
     = [Fetch (ustr ''http://a/''), Enqueue (ustr ''http://a/x'') 1, Fetch (ustr ''http://a/x'')]"
  by code_simp

lemma chain_seed_links: "seed_links chain_web (ustr ''http://a/'') = {ustr ''http://a/x''}"
  by code_simp



text \<open>
  Claim C1. For every seed URL, every depth bound and every world (so every link graph, cyclic
  or not), the run of the crawler ends, and with an empty frontier unless a library call
  outside the \<^verbatim>\<open>try\<close> block raised; the URLs it fetched are pairwise distinct and are the
  visited set; and after a URL was fetched it is neither fetched again nor enqueued again.
  The loop is a total function: it terminates on every input.
\<close>

theorem crawl_visits_once:
  "(\<not> raised (crawl_for_pdfs w base_url max_depth) \<longrightarrow>
      to_visit (crawl_for_pdfs w base_url max_depth) = [])
   \<and> distinct (fetched (events (crawl_for_pdfs w base_url max_depth)))
   \<and> visited (crawl_for_pdfs w base_url max_depth)
       = set (fetched (events (crawl_for_pdfs w base_url max_depth)))
   \<and> (\<forall>xs u ys. events (crawl_for_pdfs w base_url max_depth) = xs @ Fetch u # ys \<longrightarrow>
         Fetch u \<notin> set ys \<and> (\<forall>d. Enqueue u d \<notin> set ys))"
proof -
  have "crawl_inv \<lparr>visited = {}, to_visit = [(base_url, 0)], pdf_links = [], events = [],
      raised = False\<rparr>"
    by (simp add: crawl_inv_def)
  then have inv: "crawl_inv (crawl_for_pdfs w base_url max_depth)"
    unfolding crawl_for_pdfs_def by (rule crawl_loop_inv)
  have "raised (crawl_for_pdfs w base_url max_depth)
        \<or> to_visit (crawl_for_pdfs w base_url max_depth) = []"
    unfolding crawl_for_pdfs_def by (rule crawl_loop_ends)
  with inv show ?thesis
    unfolding crawl_inv_def using settled_split by metis
qed

theorem crawl_visits_once_witness:
  "\<not> raised (crawl_for_pdfs cyclic_web (ustr ''http://a/'') 3)
   \<and> to_visit (crawl_for_pdfs cyclic_web (ustr ''http://a/'') 3) = []
   \<and> distinct (fetched (events (crawl_for_pdfs cyclic_web (ustr ''http://a/'') 3)))
   \<and> events (crawl_for_pdfs cyclic_web (ustr ''http://a/'') 3)
       = [] @ Fetch (ustr ''http://a/'') #
           [Enqueue (ustr ''http://a/x'') 1, Enqueue (ustr ''http://a/x'') 1,
            Fetch (ustr ''http://a/x'')]
   \<and> Fetch (ustr ''http://a/'')
       \<notin> set [Enqueue (ustr ''http://a/x'') 1, Enqueue (ustr ''http://a/x'') 1,
                Fetch (ustr ''http://a/x'')]
   \<and> (\<forall>d. Enqueue (ustr ''http://a/'') d
       \<notin> set [Enqueue (ustr ''http://a/x'') 1, Enqueue (ustr ''http://a/x'') 1,
                Fetch (ustr ''http://a/x'')])"
proof -
  note once = crawl_visits_once [of cyclic_web "ustr ''http://a/''" 3]
  have ev: "events (crawl_for_pdfs cyclic_web (ustr ''http://a/'') 3)
       = [] @ Fetch (ustr ''http://a/'') #
           [Enqueue (ustr ''http://a/x'') 1, Enqueue (ustr ''http://a/x'') 1,
            Fetch (ustr ''http://a/x'')]"
    by (simp add: cyclic_run)
  from once cyclic_run(3)
  have q: "to_visit (crawl_for_pdfs cyclic_web (ustr ''http://a/'') 3) = []"
    by blast
  from once have "Fetch (ustr ''http://a/'')
       \<notin> set [Enqueue (ustr ''http://a/x'') 1, Enqueue (ustr ''http://a/x'') 1,
                Fetch (ustr ''http://a/x'')]
     \<and> (\<forall>d. Enqueue (ustr ''http://a/'') d
       \<notin> set [Enqueue (ustr ''http://a/x'') 1, Enqueue (ustr ''http://a/x'') 1,
                Fetch (ustr ''http://a/x'')])"
    using ev by blast
  with once ev q cyclic_run(3) show ?thesis by blast
qed

text \<open>The first iteration fetches the seed; under the depth bound 1 every later iteration
  finds the frontier entries at depth 1 and adds none.\<close>

lemma classify_Document:
  "classify w b f href = Document u \<longleftrightarrow>
     urljoin w f href = Some u \<and>
     (\<exists>netloc path base_path.
        urlparse w u = Some (netloc, path) \<and> urlparse w b = Some (netloc, base_path) \<and>
        \<not> is_junk_page (isdecimal w) path \<and> contains (ustr ''.pdf'') (str_lower w u))"
  by (auto simp: classify_def split: option.splits if_splits)

lemma classify_Page:
  "classify w b f href = Page u \<longleftrightarrow>
     urljoin w f href = Some u \<and>
     (\<exists>netloc path base_path.
        urlparse w u = Some (netloc, path) \<and> urlparse w b = Some (netloc, base_path) \<and>
        \<not> is_junk_page (isdecimal w) path \<and> \<not> contains (ustr ''.pdf'') (str_lower w u))"
  by (auto simp: classify_def split: option.splits if_splits)

lemma processed_subset: "set (processed w b f links) \<subseteq> set links"
  by (auto simp: processed_def dest: set_takeWhileD)

lemma new_pages_mem:
  "e \<in> set (new_pages w b m d f vis links) \<longleftrightarrow>
     (\<exists>hl \<in> set (processed w b f links).
        classify w b f (fst hl) = Page (fst e) \<and> snd e = d + 1 \<and> d < m \<and> fst e \<notin> vis)"
proof -
  define g :: "ustring \<times> codepoint node \<Rightarrow> (ustring \<times> int) list" where
    "g = (\<lambda>hl. case classify w b f (fst hl) of
                  Page u \<Rightarrow> if d < m \<and> u \<notin> vis then [(u, d + 1)] else []
                | _ \<Rightarrow> [])"
  have np: "new_pages w b m d f vis links = concat (map g (processed w b f links))"
    by (simp add: new_pages_def g_def)
  have one: "e \<in> set (g hl)
             \<longleftrightarrow> classify w b f (fst hl) = Page (fst e) \<and> snd e = d + 1 \<and> d < m \<and> fst e \<notin> vis"
    for hl
    by (cases "classify w b f (fst hl)"; cases e) (auto simp: g_def)
  have "e \<in> set (concat (map g (processed w b f links)))
        \<longleftrightarrow> (\<exists>hl \<in> set (processed w b f links). e \<in> set (g hl))"
    by auto
  then show ?thesis
    by (simp only: np one)
qed


lemma new_pages_deep:
  assumes "m \<le> d"
  shows "new_pages w b m d f vis links = []"
proof (cases "new_pages w b m d f vis links")
  case Nil
  then show ?thesis .
next
  case (Cons e es)
  then have "e \<in> set (new_pages w b m d f vis links)" by simp
  then have "d < m" unfolding new_pages_mem by blast
  with assms show ?thesis by simp
qed

lemma map_filter_mem: "g x = Some y \<Longrightarrow> x \<in> set xs \<Longrightarrow> y \<in> set (List.map_filter g xs)"
  by (induction xs) (auto split: option.split)

lemma new_pages_fst:
  assumes "e \<in> set (new_pages w b m d f vis links)"
  shows "snd e = d + 1 \<and> fst e \<in> set (List.map_filter (\<lambda>hl. urljoin w f (fst hl)) links)"
proof -
  from assms obtain hl where hl: "hl \<in> set (processed w b f links)"
    and c: "classify w b f (fst hl) = Page (fst e)" and d: "snd e = d + 1"
    unfolding new_pages_mem by blast
  from c have "urljoin w f (fst hl) = Some (fst e)" by (simp add: classify_Page)
  moreover from hl have "hl \<in> set links" using processed_subset by blast
  ultimately have "fst e \<in> set (List.map_filter (\<lambda>hl. urljoin w f (fst hl)) links)"
    by (rule map_filter_mem)
  with d show ?thesis by simp
qed

lemma crawl_iter_deep:
  assumes s: "to_visit s = (u, d) # rest" and nr: "\<not> raised s" and deep: "m \<le> d"
  shows "to_visit (crawl_iter w b m s) = rest
         \<and> set (events (crawl_iter w b m s)) \<subseteq> insert (Fetch u) (set (events s))"
  using s nr
proof (cases rule: crawl_iter_cases [where w = w and b = b and m = m])
  case (page r html)
  from nr show ?thesis
    by (auto simp: page(4) process_links_fields new_pages_deep [OF deep])
qed auto

lemma crawl_loop_deep:
  "\<forall>e \<in> set (to_visit s). m \<le> snd e \<Longrightarrow>
   set (events (crawl_loop w b m s)) \<subseteq> set (events s) \<union> Fetch ` fst ` set (to_visit s)"
proof (induction w b m s rule: crawl_loop.induct)
  case (1 w b m s)
  show ?case
  proof (cases "to_visit s = [] \<or> raised s")
    case True
    then show ?thesis by (simp add: crawl_loop.simps [of w b m s])
  next
    case False
    then have nr: "\<not> raised s" and ne: "to_visit s \<noteq> []" by simp_all
    then obtain u d rest where s: "to_visit s = (u, d) # rest"
      by (cases "to_visit s") auto
    with "1.prems" have deep: "m \<le> d" and deep_rest: "\<forall>e \<in> set rest. m \<le> snd e"
      by simp_all
    note it = crawl_iter_deep [OF s nr deep, of w b]
    from it deep_rest have "\<forall>e \<in> set (to_visit (crawl_iter w b m s)). m \<le> snd e"
      by simp
    from "1.IH" [OF False this] it
    have "set (events (crawl_loop w b m (crawl_iter w b m s)))
          \<subseteq> insert (Fetch u) (set (events s)) \<union> Fetch ` fst ` set rest"
      by auto
    with s False show ?thesis
      by (auto simp: crawl_loop.simps [of w b m s])
  qed
qed

lemma crawl_first_iteration:
  "crawl_for_pdfs w base_url max_depth
   = crawl_loop w base_url max_depth (crawl_iter w base_url max_depth (initial_state base_url))"
  unfolding crawl_for_pdfs_def initial_state_def [symmetric]
  by (subst crawl_loop.simps) (simp add: initial_state_def)

text \<open>
  Claim C5. With \<open>max_depth = 1\<close> every URL fetched is the seed or a link of the seed page, and
  every URL put on the frontier is a link of the seed page, with depth 1: a URL that is only
  linked from a page other than the seed page is never enqueued, and never fetched.
\<close>

theorem crawl_depth_one:
  "(\<forall>u. Fetch u \<in> set (events (crawl_for_pdfs w base_url 1)) \<longrightarrow>
        u = base_url \<or> u \<in> seed_links w base_url)
   \<and> (\<forall>u d. Enqueue u d \<in> set (events (crawl_for_pdfs w base_url 1)) \<longrightarrow>
        d = 1 \<and> u \<in> seed_links w base_url)"
proof -
  define s0 where "s0 = initial_state base_url"
  define s1 where "s1 = crawl_iter w base_url 1 s0"
  have q0: "to_visit s0 = (base_url, 0) # []" and nr0: "\<not> raised s0"
    and e0: "fetched (events s0) = []" and ev0: "events s0 = []"
    by (simp_all add: s0_def initial_state_def)
  have run: "crawl_for_pdfs w base_url 1 = crawl_loop w base_url 1 s1"
    by (simp add: crawl_first_iteration s1_def s0_def)
  from q0 nr0
  have first: "(\<forall>e \<in> set (to_visit s1). snd e = 1 \<and> fst e \<in> seed_links w base_url)
      \<and> set (events s1) \<subseteq> insert (Fetch base_url) ((\<lambda>e. Enqueue (fst e) (snd e)) ` set (to_visit s1))"
  proof (cases rule: crawl_iter_cases [where w = w and b = base_url and m = 1])
    case skip
    then show ?thesis by (simp add: s0_def initial_state_def)
  next
    case fail
    then show ?thesis by (simp add: s1_def ev0)
  next
    case (undecodable r)
    then show ?thesis by (simp add: s1_def ev0)
  next
    case (page r html)
    note f = process_links_fields [of "s0\<lparr>to_visit := [], visited := insert base_url (visited s0),
        events := events s0 @ [Fetch base_url]\<rparr>" w base_url 1 0 "resp_url r"
        "find_all_a_href (parse_html w html)"]
    from page(4) f nr0
    have q1: "to_visit s1 = new_pages w base_url 1 0 (resp_url r) (insert base_url (visited s0))
                (find_all_a_href (parse_html w html))"
      and e1: "events s1 = [Fetch base_url] @ map (\<lambda>e. Enqueue (fst e) (snd e))
                 (new_pages w base_url 1 0 (resp_url r) (insert base_url (visited s0))
                   (find_all_a_href (parse_html w html)))"
      by (simp_all add: s1_def ev0)
    from page(2,3) have sl: "seed_links w base_url
        = set (List.map_filter (\<lambda>hl. urljoin w (resp_url r) (fst hl))
                 (find_all_a_href (parse_html w html)))"
      by (simp add: seed_links_def e0)
    have "\<forall>e \<in> set (to_visit s1). snd e = 1 \<and> fst e \<in> seed_links w base_url"
      unfolding q1 sl using new_pages_fst by fastforce
    moreover have "set (events s1)
        \<subseteq> insert (Fetch base_url) ((\<lambda>e. Enqueue (fst e) (snd e)) ` set (to_visit s1))"
      unfolding e1 q1 by auto
    ultimately show ?thesis by blast
  qed
  then have deep: "\<forall>e \<in> set (to_visit s1). (1::int) \<le> snd e" by simp
  from crawl_loop_deep [OF deep, of w base_url]
  have sub: "set (events (crawl_for_pdfs w base_url 1))
      \<subseteq> set (events s1) \<union> Fetch ` fst ` set (to_visit s1)"
    by (simp add: run)
  show ?thesis
  proof (intro conjI allI impI)
    fix u
    assume "Fetch u \<in> set (events (crawl_for_pdfs w base_url 1))"
    with sub have "Fetch u \<in> set (events s1) \<or> u \<in> fst ` set (to_visit s1)" by auto
    with first show "u = base_url \<or> u \<in> seed_links w base_url" by auto
  next
    fix u d
    assume "Enqueue u d \<in> set (events (crawl_for_pdfs w base_url 1))"
    with sub have "Enqueue u d \<in> set (events s1)" by auto
    with first have "(u, d) \<in> set (to_visit s1)" by auto
    with first show "d = 1" and "u \<in> seed_links w base_url" by auto
  qed
qed

theorem crawl_depth_one_witness:
  "Fetch (ustr ''http://a/x'') \<in> set (events (crawl_for_pdfs chain_web (ustr ''http://a/'') 1))
   \<and> Enqueue (ustr ''http://a/x'') 1
       \<in> set (events (crawl_for_pdfs chain_web (ustr ''http://a/'') 1))
   \<and> ustr ''http://a/x'' \<in> seed_links chain_web (ustr ''http://a/'')
   \<and> ustr ''http://a/y'' \<notin> seed_links chain_web (ustr ''http://a/'')
   \<and> Fetch (ustr ''http://a/y'') \<notin> set (events (crawl_for_pdfs chain_web (ustr ''http://a/'') 1))
   \<and> (\<forall>d. Enqueue (ustr ''http://a/y'') d
         \<notin> set (events (crawl_for_pdfs chain_web (ustr ''http://a/'') 1)))"
proof -
  note one = crawl_depth_one [of chain_web "ustr ''http://a/''"]
  have f: "Fetch (ustr ''http://a/x'') \<in> set (events (crawl_for_pdfs chain_web (ustr ''http://a/'') 1))"
    and e: "Enqueue (ustr ''http://a/x'') 1
       \<in> set (events (crawl_for_pdfs chain_web (ustr ''http://a/'') 1))"
    by (simp_all add: chain_run)
  have y: "ustr ''http://a/y'' \<notin> seed_links chain_web (ustr ''http://a/'')"
    unfolding chain_seed_links by code_simp
  have yb: "ustr ''http://a/y'' \<noteq> ustr ''http://a/''"
    by code_simp
  from one e have x: "ustr ''http://a/x'' \<in> seed_links chain_web (ustr ''http://a/'')"
    by blast
  from one y yb
  have ny: "Fetch (ustr ''http://a/y'') \<notin> set (events (crawl_for_pdfs chain_web (ustr ''http://a/'') 1))"
    by blast
  from one y
  have "\<forall>d. Enqueue (ustr ''http://a/y'') d
         \<notin> set (events (crawl_for_pdfs chain_web (ustr ''http://a/'') 1))"
    by blast
  with f e x y ny show ?thesis by blast
qed
















text \<open>What the two string tests decide.\<close>

lemma startswith_iff: "startswith s p \<longleftrightarrow> (\<exists>post. s = p @ post)"
  by (induction s p rule: startswith.induct) auto

lemma contains_iff: "contains sub s \<longleftrightarrow> (\<exists>pre post. s = pre @ sub @ post)"
proof (induction s)
  case Nil
  show ?case by auto
next
  case (Cons x xs)
  have "(\<exists>pre post. x # xs = pre @ sub @ post)
        \<longleftrightarrow> (\<exists>post. x # xs = sub @ post) \<or> (\<exists>pre post. xs = pre @ sub @ post)"
  proof
    assume "\<exists>pre post. x # xs = pre @ sub @ post"
    then obtain pre post where p: "x # xs = pre @ sub @ post" by blast
    show "(\<exists>post. x # xs = sub @ post) \<or> (\<exists>pre post. xs = pre @ sub @ post)"
    proof (cases pre)
      case Nil
      with p show ?thesis by auto
    next
      case (Cons y ys)
      with p have "xs = ys @ sub @ post" by simp
      then show ?thesis by blast
    qed
  next
    assume "(\<exists>post. x # xs = sub @ post) \<or> (\<exists>pre post. xs = pre @ sub @ post)"
    then show "\<exists>pre post. x # xs = pre @ sub @ post"
    proof
      assume "\<exists>post. x # xs = sub @ post"
      then obtain post where "x # xs = [] @ sub @ post" by auto
      then show ?thesis by blast
    next
      assume "\<exists>pre post. xs = pre @ sub @ post"
      then obtain pre post where "x # xs = (x # pre) @ sub @ post" by auto
      then show ?thesis by blast
    qed
  qed
  with Cons show ?case
    by (simp add: startswith_iff)
qed














section \<open>Properties of the listing paginator and extractor\<close>

lemma extract_step_distinct:
  "distinct (map url reports) \<Longrightarrow> distinct (map url (extract_step elems reports i))"
  by (auto simp: extract_step_def Let_def list_ex_iff split: option.split)

lemma extract_fold_distinct:
  "distinct (map url reports) \<Longrightarrow> distinct (map url (foldl (extract_step elems) reports is))"
  by (induction "is" arbitrary: reports) (simp_all add: extract_step_distinct)

lemma collect_entries_fold:
  "foldl (\<lambda>report_entries html. report_entries @ extract_report_links parse html) acc htmls
   = acc @ concat (map (extract_report_links parse) htmls)"
  by (induction htmls arbitrary: acc) simp_all

lemma collect_entries_concat:
  "collect_entries parse htmls = concat (map (extract_report_links parse) htmls)"
  by (simp add: collect_entries_def collect_entries_fold)

lemma example_page_A:
  "extract_report_links example_parse (page_html CHR ''A'')
   = [\<lparr>url = ''https://www.tillvaxtanalys.se/publikationer/rapport/r1.html'', date = ''26 februari 2025''\<rparr>,
      \<lparr>url = ''https://www.tillvaxtanalys.se/publikationer/PM/p2.html'', date = ''3 mars 2025''\<rparr>]"
  by code_simp

lemma example_page_B:
  "extract_report_links example_parse (page_html CHR ''B'')
   = [\<lparr>url = ''https://www.tillvaxtanalys.se/publikationer/rapport/r1.html'', date = ''26 februari 2025''\<rparr>,
      \<lparr>url = ''https://www.tillvaxtanalys.se/publikationer/wp/w3.html'', date = ''1 januari 2025''\<rparr>]"
  by code_simp

lemma example_page_C:
  "extract_report_links example_parse (page_html CHR ''C'')
   = [\<lparr>url = ''https://www.tillvaxtanalys.se/publikationer/rapport/r9.html'', date = ''9 maj 2025''\<rparr>]"
  by code_simp

lemma example_valid:
  "is_valid_listing_page example_parse (page_html CHR ''A'')"
  "is_valid_listing_page example_parse (page_html CHR ''B'')"
  "\<not> is_valid_listing_page example_parse (page_html CHR ''C'')"
  by code_simp+

lemma example_urls:
  "paginated_url ''L'' 1 = ''L''"
  "paginated_url ''L'' 2 = ''L&svAjaxReqParam=ajax&page12_706c70df1932999ea346c0a=2''"
  "paginated_url ''L'' 3 = ''L&svAjaxReqParam=ajax&page12_706c70df1932999ea346c0a=3''"
  by code_simp+

lemma example_loads:
  "example_get_html (paginated_url ''L'' 1) = Inr (page_html CHR ''A'')"
  "example_get_html (paginated_url ''L'' 2) = Inr (page_html CHR ''B'')"
  "example_get_html (paginated_url ''L'' 3) = Inr (page_html CHR ''C'')"
  "failing_get_html (paginated_url ''L'' 1) = Inr (page_html CHR ''A'')"
  "failing_get_html (paginated_url ''L'' 2) = Inl PlaywrightError"
  unfolding example_urls by (simp_all add: example_get_html_def failing_get_html_def)

lemma example_lengths:
  "page_html c \<noteq> []" "\<not> length (page_html c) < 1000" "1000 \<le> length (page_html c)"
  by (simp_all add: page_html_def)

lemma listing_loop_good_pages:
  assumes good: "\<forall>k < length pages.
        get_html (paginated_url listing_url (k + 1)) = Inr (pages ! k) \<and>
        is_valid_listing_page parse (pages ! k) \<and> 1000 \<le> length (pages ! k) \<and>
        extract_report_links parse (pages ! k) \<noteq> []"
  shows "j \<le> length pages \<Longrightarrow>
         listing_loop parse get_html listing_url (j + 1) (take j pages)
           = listing_loop parse get_html listing_url (length pages + 1) pages"
proof (induction "length pages - j" arbitrary: j)
  case 0
  then show ?case by simp
next
  case (Suc n)
  then have lt: "j < length pages" and n: "n = length pages - (j + 1)" and le: "j + 1 \<le> length pages"
    by simp_all
  from good lt have g: "get_html (paginated_url listing_url (j + 1)) = Inr (pages ! j)"
    "is_valid_listing_page parse (pages ! j)" "1000 \<le> length (pages ! j)"
    "extract_report_links parse (pages ! j) \<noteq> []"
    by simp_all
  from g(3) have ne: "pages ! j \<noteq> []" "\<not> length (pages ! j) < 1000" by auto
  from g(4) have some: "\<not> length (extract_report_links parse (pages ! j)) < 1"
    by (cases "extract_report_links parse (pages ! j)") simp_all
  have tk: "take j pages @ [pages ! j] = take (j + 1) pages"
    using lt by (simp add: take_Suc_conv_app_nth)
  have "listing_loop parse get_html listing_url (j + 1) (take j pages)
        = (case get_html (paginated_url listing_url (j + 1)) of
             Inl e \<Rightarrow> Some (Inl e)
           | Inr html \<Rightarrow>
               if \<not> is_valid_listing_page parse html then Some (Inr (take j pages))
               else if html = [] \<or> length html < 1000 then Some (Inr (take j pages))
               else if length (extract_report_links parse html) < 1 then
                 Some (Inr (take j pages @ [html]))
               else listing_loop parse get_html listing_url (j + 1 + 1) (take j pages @ [html]))"
    by (rule listing_loop.simps)
  also have "\<dots> = listing_loop parse get_html listing_url (j + 1 + 1) (take (j + 1) pages)"
    by (simp only: g ne some tk sum.case if_False if_True not_not simp_thms)
  also have "\<dots> = listing_loop parse get_html listing_url (length pages + 1) pages"
    using Suc.hyps(1) [OF n le] .
  finally show ?case .
qed

lemma listing_loop_stops:
  assumes "get_html (paginated_url listing_url current_page) = Inr html"
    and "\<not> is_valid_listing_page parse html"
  shows "listing_loop parse get_html listing_url current_page all_listing_htmls
         = Some (Inr all_listing_htmls)"
  by (subst listing_loop.simps) (simp add: assms)

lemma listing_loop_raises:
  assumes "get_html (paginated_url listing_url current_page) = Inl e"
  shows "listing_loop parse get_html listing_url current_page all_listing_htmls = Some (Inl e)"
  by (subst listing_loop.simps) (simp add: assms)

lemma fetch_listing_pages_raises:
  assumes "\<forall>k < length pages.
        get_html (paginated_url listing_url (k + 1)) = Inr (pages ! k) \<and>
        is_valid_listing_page parse (pages ! k) \<and> 1000 \<le> length (pages ! k) \<and>
        extract_report_links parse (pages ! k) \<noteq> []"
    and "get_html (paginated_url listing_url (length pages + 1)) = Inl e"
  shows "fetch_listing_pages parse get_html listing_url = Some (Inl e)"
proof -
  have "listing_loop parse get_html listing_url (0 + 1) (take 0 pages)
        = listing_loop parse get_html listing_url (length pages + 1) pages"
    using assms(1) by (intro listing_loop_good_pages) simp_all
  also have "\<dots> = Some (Inl e)"
    using assms(2) by (rule listing_loop_raises)
  finally show ?thesis
    by (simp add: fetch_listing_pages_def)
qed

lemma fetch_listing_pages_run:
  assumes "\<forall>k < length pages.
        get_html (paginated_url listing_url (k + 1)) = Inr (pages ! k) \<and>
        is_valid_listing_page parse (pages ! k) \<and> 1000 \<le> length (pages ! k) \<and>
        extract_report_links parse (pages ! k) \<noteq> []"
    and "get_html (paginated_url listing_url (length pages + 1)) = Inr last_html"
    and "\<not> is_valid_listing_page parse last_html"
  shows "fetch_listing_pages parse get_html listing_url = Some (Inr pages)"
proof -
  have "listing_loop parse get_html listing_url (0 + 1) (take 0 pages)
        = listing_loop parse get_html listing_url (length pages + 1) pages"
    using assms(1) by (intro listing_loop_good_pages) simp_all
  also have "\<dots> = Some (Inr pages)"
    using assms(2,3) by (rule listing_loop_stops)
  finally show ?thesis
    by (simp add: fetch_listing_pages_def)
qed

text \<open>
  Claim C3. When the pages 1 to N-1 load, are valid (the marker heading is there), are long
  enough (at least 1000 characters) and have at least one entry each, and page N loads and
  lacks the marker, then the paginator returns, and returns exactly the pages 1 to N-1 in
  order; the entries then extracted are those of the pages 1 to N-1, in page order, and none
  of page N.
\<close>

theorem pagination_stops_at_first_invalid_page:
  assumes "\<forall>k < length pages.
        get_html (paginated_url listing_url (k + 1)) = Inr (pages ! k) \<and>
        is_valid_listing_page parse (pages ! k) \<and> 1000 \<le> length (pages ! k) \<and>
        extract_report_links parse (pages ! k) \<noteq> []"
    and "get_html (paginated_url listing_url (length pages + 1)) = Inr last_html"
    and "\<not> is_valid_listing_page parse last_html"
  shows "fetch_listing_pages parse get_html listing_url = Some (Inr pages)
         \<and> session_entries parse get_html listing_url
             = Some (Inr (concat (map (extract_report_links parse) pages)))"
proof -
  have "fetch_listing_pages parse get_html listing_url = Some (Inr pages)"
    using assms by (rule fetch_listing_pages_run)
  then show ?thesis
    by (simp add: session_entries_def collect_entries_concat)
qed

lemma example_good_pages:
  "\<forall>k < length [page_html CHR ''A'', page_html CHR ''B''].
     example_get_html (paginated_url ''L'' (k + 1)) = Inr ([page_html CHR ''A'', page_html CHR ''B''] ! k) \<and>
     is_valid_listing_page example_parse ([page_html CHR ''A'', page_html CHR ''B''] ! k) \<and>
     1000 \<le> length ([page_html CHR ''A'', page_html CHR ''B''] ! k) \<and>
     extract_report_links example_parse ([page_html CHR ''A'', page_html CHR ''B''] ! k) \<noteq> []"
proof (intro allI impI)
  fix k :: nat
  assume "k < length [page_html CHR ''A'', page_html CHR ''B'']"
  then have "k = 0 \<or> k = 1" by auto
  then show "example_get_html (paginated_url ''L'' (k + 1)) = Inr ([page_html CHR ''A'', page_html CHR ''B''] ! k) \<and>
     is_valid_listing_page example_parse ([page_html CHR ''A'', page_html CHR ''B''] ! k) \<and>
     1000 \<le> length ([page_html CHR ''A'', page_html CHR ''B''] ! k) \<and>
     extract_report_links example_parse ([page_html CHR ''A'', page_html CHR ''B''] ! k) \<noteq> []"
  proof
    assume k: "k = 0"
    have "k + 1 = 1" by (simp add: k)
    then have "paginated_url ''L'' (k + 1) = paginated_url ''L'' 1" by (rule arg_cong)
    then show ?thesis
      by (simp only: example_loads k nth_Cons_0 example_valid example_lengths example_page_A)
         simp
  next
    assume k: "k = 1"
    have "k + 1 = 2" by (simp add: k)
    then have "paginated_url ''L'' (k + 1) = paginated_url ''L'' 2" by (rule arg_cong)
    moreover have "[page_html CHR ''A'', page_html CHR ''B''] ! k = page_html CHR ''B''"
      by (simp add: k)
    ultimately show ?thesis
      by (simp only: example_loads example_valid example_lengths example_page_B) simp
  qed
qed

lemma example_last_page:
  "example_get_html (paginated_url ''L'' (length [page_html CHR ''A'', page_html CHR ''B''] + 1))
     = Inr (page_html CHR ''C'')"
proof -
  have "length [page_html CHR ''A'', page_html CHR ''B''] + 1 = 3" by simp
  then show ?thesis by (simp only: example_loads)
qed

theorem pagination_stops_at_first_invalid_page_witness:
  "fetch_listing_pages example_parse example_get_html ''L''
     = Some (Inr [page_html CHR ''A'', page_html CHR ''B''])
   \<and> session_entries example_parse example_get_html ''L''
     = Some (Inr
         [\<lparr>url = ''https://www.tillvaxtanalys.se/publikationer/rapport/r1.html'', date = ''26 februari 2025''\<rparr>,
          \<lparr>url = ''https://www.tillvaxtanalys.se/publikationer/PM/p2.html'', date = ''3 mars 2025''\<rparr>,
          \<lparr>url = ''https://www.tillvaxtanalys.se/publikationer/rapport/r1.html'', date = ''26 februari 2025''\<rparr>,
          \<lparr>url = ''https://www.tillvaxtanalys.se/publikationer/wp/w3.html'', date = ''1 januari 2025''\<rparr>])
   \<and> extract_report_links example_parse (page_html CHR ''C'')
     = [\<lparr>url = ''https://www.tillvaxtanalys.se/publikationer/rapport/r9.html'', date = ''9 maj 2025''\<rparr>]"
proof -
  note c = example_page_C
  from pagination_stops_at_first_invalid_page
    [OF example_good_pages example_last_page example_valid(3)] c
  show ?thesis
    by (simp only: list.map concat.simps example_page_A example_page_B append.simps simp_thms)
qed

lemma example_fetch:
  "fetch_listing_pages example_parse example_get_html ''L''
   = Some (Inr [page_html CHR ''A'', page_html CHR ''B''])"
  using example_good_pages example_last_page example_valid(3) by (rule fetch_listing_pages_run)

lemma example_session:
  "session_entries example_parse example_get_html ''L''
   = Some (Inr
       [\<lparr>url = ''https://www.tillvaxtanalys.se/publikationer/rapport/r1.html'', date = ''26 februari 2025''\<rparr>,
        \<lparr>url = ''https://www.tillvaxtanalys.se/publikationer/PM/p2.html'', date = ''3 mars 2025''\<rparr>,
        \<lparr>url = ''https://www.tillvaxtanalys.se/publikationer/rapport/r1.html'', date = ''26 februari 2025''\<rparr>,
        \<lparr>url = ''https://www.tillvaxtanalys.se/publikationer/wp/w3.html'', date = ''1 januari 2025''\<rparr>])"
  by (simp add: session_entries_def example_fetch collect_entries_concat example_page_A
      example_page_B)

text \<open>
  Claim C8. The entries one call of the extractor returns for a listing page have pairwise
  different URLs: an entry whose URL was added earlier in the call is not added again.
\<close>

theorem extract_report_links_unique_urls:
  "distinct (map url (extract_report_links parse listing_html))"
  by (simp add: extract_report_links_def Let_def extract_fold_distinct)

theorem extract_report_links_unique_urls_witness:
  "distinct (map url (extract_report_links example_parse (page_html CHR ''A'')))
   \<and> map url (extract_report_links example_parse (page_html CHR ''A''))
     = [''https://www.tillvaxtanalys.se/publikationer/rapport/r1.html'',
        ''https://www.tillvaxtanalys.se/publikationer/PM/p2.html'']"
  using extract_report_links_unique_urls [of example_parse "page_html CHR ''A''"]
  by (simp add: example_page_A)

text \<open>
  The session of the example listing has the same URL twice: once from page A and once from
  page B. So the entries of a session do not have pairwise different URLs.
\<close>

theorem session_entries_duplicate_counterexample:
  "session_entries example_parse example_get_html ''L''
   = Some (Inr
       [\<lparr>url = ''https://www.tillvaxtanalys.se/publikationer/rapport/r1.html'', date = ''26 februari 2025''\<rparr>,
        \<lparr>url = ''https://www.tillvaxtanalys.se/publikationer/PM/p2.html'', date = ''3 mars 2025''\<rparr>,
        \<lparr>url = ''https://www.tillvaxtanalys.se/publikationer/rapport/r1.html'', date = ''26 februari 2025''\<rparr>,
        \<lparr>url = ''https://www.tillvaxtanalys.se/publikationer/wp/w3.html'', date = ''1 januari 2025''\<rparr>])
   \<and> \<not> distinct (map url
       [\<lparr>url = ''https://www.tillvaxtanalys.se/publikationer/rapport/r1.html'', date = ''26 februari 2025''\<rparr>,
        \<lparr>url = ''https://www.tillvaxtanalys.se/publikationer/PM/p2.html'', date = ''3 mars 2025''\<rparr>,
        \<lparr>url = ''https://www.tillvaxtanalys.se/publikationer/rapport/r1.html'', date = ''26 februari 2025''\<rparr>,
        \<lparr>url = ''https://www.tillvaxtanalys.se/publikationer/wp/w3.html'', date = ''1 januari 2025''\<rparr>])"
  using example_session by simp

text \<open>
  Claim C9, amended. The entries of a pagination session are the entries of the fetched pages
  one after the other, in page order; within the entries of each page no URL occurs twice.
  Nothing removes an entry whose URL an earlier page has listed.
\<close>

theorem session_entries_per_page:
  assumes "session_entries parse get_html listing_url = Some (Inr entries)"
  shows "\<exists>listing_htmls.
           fetch_listing_pages parse get_html listing_url = Some (Inr listing_htmls)
           \<and> entries = concat (map (extract_report_links parse) listing_htmls)
           \<and> (\<forall>html \<in> set listing_htmls. distinct (map url (extract_report_links parse html)))"
proof -
  from assms obtain listing_htmls where
    f: "fetch_listing_pages parse get_html listing_url = Some (Inr listing_htmls)"
    and e: "entries = collect_entries parse listing_htmls"
    by (auto simp: session_entries_def split: option.splits sum.splits)
  have "\<forall>html \<in> set listing_htmls. distinct (map url (extract_report_links parse html))"
    by (simp add: extract_report_links_def Let_def extract_fold_distinct)
  with f e show ?thesis
    by (auto simp: collect_entries_concat)
qed

theorem session_entries_per_page_witness:
  "session_entries example_parse example_get_html ''L''
   = Some (Inr
       [\<lparr>url = ''https://www.tillvaxtanalys.se/publikationer/rapport/r1.html'', date = ''26 februari 2025''\<rparr>,
        \<lparr>url = ''https://www.tillvaxtanalys.se/publikationer/PM/p2.html'', date = ''3 mars 2025''\<rparr>,
        \<lparr>url = ''https://www.tillvaxtanalys.se/publikationer/rapport/r1.html'', date = ''26 februari 2025''\<rparr>,
        \<lparr>url = ''https://www.tillvaxtanalys.se/publikationer/wp/w3.html'', date = ''1 januari 2025''\<rparr>])
   \<and> (\<exists>listing_htmls.
         fetch_listing_pages example_parse example_get_html ''L'' = Some (Inr listing_htmls)
         \<and> [\<lparr>url = ''https://www.tillvaxtanalys.se/publikationer/rapport/r1.html'', date = ''26 februari 2025''\<rparr>,
            \<lparr>url = ''https://www.tillvaxtanalys.se/publikationer/PM/p2.html'', date = ''3 mars 2025''\<rparr>,
            \<lparr>url = ''https://www.tillvaxtanalys.se/publikationer/rapport/r1.html'', date = ''26 februari 2025''\<rparr>,
            \<lparr>url = ''https://www.tillvaxtanalys.se/publikationer/wp/w3.html'', date = ''1 januari 2025''\<rparr>]
           = concat (map (extract_report_links example_parse) listing_htmls)
         \<and> (\<forall>html \<in> set listing_htmls.
               distinct (map url (extract_report_links example_parse html))))"
  using session_entries_per_page [OF example_session] example_session by blast

lemma is_valid_listing_page_iff:
  "is_valid_listing_page parse html \<longleftrightarrow>
     (\<exists>t \<in> set (descendants (parse html)).
        tag_name t \<in> {''h1'', ''h2'', ''h3''} \<and>
        (\<exists>pre post. get_text t = pre @ ''Publikationer'' @ post))"
proof -
  have "is_valid_listing_page parse html \<longleftrightarrow>
     (\<exists>t \<in> set (descendants (parse html)).
        tag_name t \<in> set [''h1'', ''h2'', ''h3''] \<and> contains ''Publikationer'' (get_text t))"
    unfolding is_valid_listing_page_def Let_def find_None_iff by blast
  also have "\<dots> \<longleftrightarrow> (\<exists>t \<in> set (descendants (parse html)).
        tag_name t \<in> {''h1'', ''h2'', ''h3''} \<and>
        (\<exists>pre post. get_text t = pre @ ''Publikationer'' @ post))"
    unfolding contains_iff by simp
  finally show ?thesis .
qed

text \<open>
  Claim C10. A page is a valid listing page exactly when the text of one of its \<open>h1\<close>, \<open>h2\<close>
  or \<open>h3\<close> tags (all strings below the tag, joined) contains \<open>Publikationer\<close>. When the page
  loaded for the current index has no such tag, wherever else the marker occurs, the
  paginator stops there and returns the pages collected before.
\<close>

theorem is_valid_listing_page_headings:
  "(is_valid_listing_page parse html \<longleftrightarrow>
      (\<exists>t \<in> set (descendants (parse html)).
         tag_name t \<in> {''h1'', ''h2'', ''h3''} \<and>
         (\<exists>pre post. get_text t = pre @ ''Publikationer'' @ post)))
   \<and> (get_html (paginated_url listing_url current_page) = Inr html \<and>
      \<not> (\<exists>t \<in> set (descendants (parse html)).
           tag_name t \<in> {''h1'', ''h2'', ''h3''} \<and>
           (\<exists>pre post. get_text t = pre @ ''Publikationer'' @ post)) \<longrightarrow>
      listing_loop parse get_html listing_url current_page all_listing_htmls
        = Some (Inr all_listing_htmls))"
proof (intro conjI impI)
  show "is_valid_listing_page parse html \<longleftrightarrow>
      (\<exists>t \<in> set (descendants (parse html)).
         tag_name t \<in> {''h1'', ''h2'', ''h3''} \<and>
         (\<exists>pre post. get_text t = pre @ ''Publikationer'' @ post))"
    by (rule is_valid_listing_page_iff)
next
  assume a: "get_html (paginated_url listing_url current_page) = Inr html \<and>
      \<not> (\<exists>t \<in> set (descendants (parse html)).
           tag_name t \<in> {''h1'', ''h2'', ''h3''} \<and>
           (\<exists>pre post. get_text t = pre @ ''Publikationer'' @ post))"
  then have "\<not> is_valid_listing_page parse html"
    by (simp only: is_valid_listing_page_iff not_False_eq_True)
  with a show "listing_loop parse get_html listing_url current_page all_listing_htmls
        = Some (Inr all_listing_htmls)"
    by (intro listing_loop_stops) simp_all
qed

lemma example_page_C_tags:
  "descendants (example_parse (page_html CHR ''C''))
   = [Tag ''h1'' [''Publikationer''] (Some ''/Publikationer'') [Text ''Rapporter''],
      Tag ''h4'' [] None [Text ''Publikationer''],
      Tag ''p'' [] None [Text ''Publikationer''],
      Tag ''ul'' [] None [listing_item ''/publikationer/rapport/r9.html'' ''9 maj 2025''],
      listing_item ''/publikationer/rapport/r9.html'' ''9 maj 2025'',
      Tag ''a'' [] (Some ''/publikationer/rapport/r9.html'') [Text ''Rapport''],
      Tag ''time'' [''lp-filterable-list-item-date''] None [Text ''9 maj 2025'']]"
  by code_simp

theorem is_valid_listing_page_headings_witness:
  "\<not> is_valid_listing_page example_parse (page_html CHR ''C'')
   \<and> Tag ''h4'' [] None [Text ''Publikationer''] \<in> set (descendants (example_parse (page_html CHR ''C'')))
   \<and> Tag ''p'' [] None [Text ''Publikationer''] \<in> set (descendants (example_parse (page_html CHR ''C'')))
   \<and> \<not> (\<exists>t \<in> set (descendants (example_parse (page_html CHR ''C''))).
           tag_name t \<in> {''h1'', ''h2'', ''h3''} \<and>
           (\<exists>pre post. get_text t = pre @ ''Publikationer'' @ post))
   \<and> listing_loop example_parse example_get_html ''L'' 3 [page_html CHR ''A'', page_html CHR ''B'']
       = Some (Inr [page_html CHR ''A'', page_html CHR ''B''])"
proof -
  note t = is_valid_listing_page_headings
    [of example_parse "page_html CHR ''C''" example_get_html "''L''" 3
        "[page_html CHR ''A'', page_html CHR ''B'']"]
  from t example_valid(3)
  have none: "\<not> (\<exists>t \<in> set (descendants (example_parse (page_html CHR ''C''))).
           tag_name t \<in> {''h1'', ''h2'', ''h3''} \<and>
           (\<exists>pre post. get_text t = pre @ ''Publikationer'' @ post))"
    by blast
  with t example_loads(3)
  have stop: "listing_loop example_parse example_get_html ''L'' 3 [page_html CHR ''A'', page_html CHR ''B'']
       = Some (Inr [page_html CHR ''A'', page_html CHR ''B''])"
    by blast
  have "Tag ''h4'' [] None [Text ''Publikationer''] \<in> set (descendants (example_parse (page_html CHR ''C'')))"
    and "Tag ''p'' [] None [Text ''Publikationer''] \<in> set (descendants (example_parse (page_html CHR ''C'')))"
    unfolding example_page_C_tags by simp_all
  with example_valid(3) none stop show ?thesis by blast
qed

lemma failing_good_pages:
  "\<forall>k < length [page_html CHR ''A''].
     failing_get_html (paginated_url ''L'' (k + 1)) = Inr ([page_html CHR ''A''] ! k) \<and>
     is_valid_listing_page example_parse ([page_html CHR ''A''] ! k) \<and>
     1000 \<le> length ([page_html CHR ''A''] ! k) \<and>
     extract_report_links example_parse ([page_html CHR ''A''] ! k) \<noteq> []"
proof (intro allI impI)
  fix k :: nat
  assume "k < length [page_html CHR ''A'']"
  then have k: "k = 0" by simp
  have "k + 1 = 1" by (simp add: k)
  then have "paginated_url ''L'' (k + 1) = paginated_url ''L'' 1" by (rule arg_cong)
  then show "failing_get_html (paginated_url ''L'' (k + 1)) = Inr ([page_html CHR ''A''] ! k) \<and>
     is_valid_listing_page example_parse ([page_html CHR ''A''] ! k) \<and>
     1000 \<le> length ([page_html CHR ''A''] ! k) \<and>
     extract_report_links example_parse ([page_html CHR ''A''] ! k) \<noteq> []"
    by (simp only: example_loads k nth_Cons_0 example_valid example_lengths example_page_A) simp
qed

lemma failing_second_page:
  "failing_get_html (paginated_url ''L'' (length [page_html CHR ''A''] + 1)) = Inl PlaywrightError"
proof -
  have "length [page_html CHR ''A''] + 1 = 2" by simp
  then show ?thesis by (simp only: example_loads)
qed

text \<open>
  Claim C4, the pagination loop. On the example listing with the renderer that fails to load
  the second page, the run of the paginator ends with the exception, and so does the session:
  the first page, which was valid and had two entries, is not returned. In the crawler a
  request that raises is skipped (lemma \<open>crawl_iter_fail\<close>) and the loop goes on.
\<close>

theorem pagination_load_failure_propagates:
  "fetch_listing_pages example_parse failing_get_html ''L'' = Some (Inl PlaywrightError)
   \<and> session_entries example_parse failing_get_html ''L'' = Some (Inl PlaywrightError)
   \<and> is_valid_listing_page example_parse (page_html CHR ''A'')
   \<and> extract_report_links example_parse (page_html CHR ''A'')
     = [\<lparr>url = ''https://www.tillvaxtanalys.se/publikationer/rapport/r1.html'', date = ''26 februari 2025''\<rparr>,
        \<lparr>url = ''https://www.tillvaxtanalys.se/publikationer/PM/p2.html'', date = ''3 mars 2025''\<rparr>]"
proof -
  have "fetch_listing_pages example_parse failing_get_html ''L'' = Some (Inl PlaywrightError)"
    using failing_good_pages failing_second_page by (rule fetch_listing_pages_raises)
  then show ?thesis
    by (simp add: session_entries_def example_valid example_page_A)
qed

end
